theory Spec2Isabelle
  imports Main "HOL-Library.AList"
begin

section \<open>JavaScript values, the heap and the primitive operations the cache relies on\<close>

text \<open>
  The cache of \<^verbatim>\<open>library/cache.js\<close> is made of plain JavaScript objects that are mutated
  in place, and one object can be stored in several places. Objects therefore live in a
  heap: the list of the objects made so far, each the association list of its own
  properties in insertion order (JavaScript lists integer-like keys first, which only
  shows in a serialisation). \<open>Ref a\<close> is the reference to the object at index \<open>a\<close>. A value
  of the running program is \<^verbatim>\<open>undefined\<close>, \<^verbatim>\<open>null\<close>, a string (a Leaf), a reference to
  an object (a Branch), or one of the built-in objects below. Numbers, booleans and
  arrays are not cache values here, and the objects get their properties by assignment,
  as everywhere in the source.

  \<open>Obj kvs\<close> is an object given by its content: one that has just been built and that
  nothing else refers to, such as the tree that \<^verbatim>\<open>readBranch\<close> fills and the copy that
  \<^verbatim>\<open>get\<close> makes. It becomes an object of the heap when it is handed to the cache.

  Every plain object inherits from \<^verbatim>\<open>Object.prototype\<close>. \<open>ObjectPrototype\<close> is that
  object and \<open>NativeFunction k\<close> the function it holds under the name \<open>k\<close>
  (\<open>NativeFunction ''constructor''\<close> is \<^verbatim>\<open>Object\<close>). The built-in objects are taken as the
  runtime starts them. Reading a property through them is modelled. The operator
  \<^verbatim>\<open>in\<close>, an assignment and a \<^verbatim>\<open>delete\<close> applied to a built-in object, and the
  assignment of an object or \<^verbatim>\<open>null\<close> to the inherited \<^verbatim>\<open>__proto__\<close>, reach into the
  built-in objects or change a prototype chain: they lie outside the model, and the
  operations below answer \<open>None\<close> for them. They answer \<open>None\<close> as well for a reference
  that leads outside the heap and for an object given by its content that is met inside
  the heap, neither of which a running program can produce.
\<close>

datatype jsval =
    Undefined
  | Null
  | Str string
  | Obj "(string \<times> jsval) list"
  | Ref nat
  | ObjectPrototype
  | NativeFunction string

type_synonym props = "(string \<times> jsval) list"

type_synonym heap = "props list"

datatype error =
    NoReason          \<comment> \<open>\<^verbatim>\<open>reject()\<close> called without a reason\<close>
  | ReferenceError
  | TypeError
  | FsError string    \<comment> \<open>a file system error; the string is its \<^verbatim>\<open>code\<close>\<close>
  | WrappedError error  \<comment> \<open>\<^verbatim>\<open>new Error(error)\<close>\<close>

text \<open>The three states a promise can end in; \<open>Pending\<close> is a promise that is never settled.\<close>

datatype 'a outcome = Resolved 'a | Rejected error | Pending

text \<open>The names of the properties that every plain object inherits from \<^verbatim>\<open>Object.prototype\<close>.\<close>

definition inherited :: "string list" where
  "inherited =
     [''constructor'', ''__defineGetter__'', ''__defineSetter__'', ''hasOwnProperty'',
      ''__lookupGetter__'', ''__lookupSetter__'', ''isPrototypeOf'',
      ''propertyIsEnumerable'', ''toString'', ''valueOf'', ''__proto__'',
      ''toLocaleString'']"

text \<open>\<^verbatim>\<open>!v\<close>: the falsy values among the modelled ones.\<close>

fun js_falsy :: "jsval \<Rightarrow> bool" where
  "js_falsy Undefined = True"
| "js_falsy Null = True"
| "js_falsy (Str s) = (s = [])"
| "js_falsy v = False"

fun js_typeof :: "jsval \<Rightarrow> string" where
  "js_typeof Undefined = ''undefined''"
| "js_typeof (Str s) = ''string''"
| "js_typeof (NativeFunction k) = ''function''"
| "js_typeof v = ''object''"

text \<open>The own properties of an object: of an object of the heap, or of one given by its content.\<close>

fun own_props :: "heap \<Rightarrow> jsval \<Rightarrow> props option" where
  "own_props h (Ref a) = (if a < length h then Some (h ! a) else None)"
| "own_props h (Obj kvs) = Some kvs"
| "own_props h v = None"

text \<open>
  What a plain object answers for a name it does not own: the member of
  \<^verbatim>\<open>Object.prototype\<close> of that name (the accessor \<^verbatim>\<open>__proto__\<close> answers the prototype
  itself), and \<^verbatim>\<open>undefined\<close> for every other name.
\<close>

definition proto_member :: "string \<Rightarrow> jsval" where
  "proto_member k =
     (if k = ''__proto__'' then ObjectPrototype
      else if k \<in> set inherited then NativeFunction k
      else Undefined)"

text \<open>
  \<^verbatim>\<open>target[key]\<close>: an own property first, then the prototype. The prototype of
  \<^verbatim>\<open>Object.prototype\<close> is \<^verbatim>\<open>null\<close>. The source reads a property only of a value it has
  just checked to be an object, and never of a function.
\<close>

fun js_get :: "heap \<Rightarrow> jsval \<Rightarrow> string \<Rightarrow> jsval" where
  "js_get h ObjectPrototype k = (if k = ''__proto__'' then Null else proto_member k)"
| "js_get h target k =
     (case own_props h target of
        None \<Rightarrow> Undefined
      | Some ps \<Rightarrow> (case map_of ps k of Some v \<Rightarrow> v | None \<Rightarrow> proto_member k))"

text \<open>
  \<^verbatim>\<open>key in target\<close>: a TypeError unless the right operand is an object; an object of the
  heap has the keys it owns and the keys it inherits.
\<close>

fun js_in :: "heap \<Rightarrow> string \<Rightarrow> jsval \<Rightarrow> (error + bool) option" where
  "js_in h k (Ref a) =
     (if a < length h
      then Some (Inr (k \<in> set (map fst (h ! a)) \<or> k \<in> set inherited))
      else None)"
| "js_in h k Undefined = Some (Inl TypeError)"
| "js_in h k Null = Some (Inl TypeError)"
| "js_in h k (Str s) = Some (Inl TypeError)"
| "js_in h k v = None"

text \<open>Whether a value is an object (a function is one).\<close>

fun is_object :: "jsval \<Rightarrow> bool" where
  "is_object Undefined = False"
| "is_object Null = False"
| "is_object (Str s) = False"
| "is_object v = True"

text \<open>
  \<^verbatim>\<open>target[key] = value\<close> in strict mode (the file starts with \<^verbatim>\<open>'use strict'\<close> and is
  a module): on \<^verbatim>\<open>undefined\<close>, \<^verbatim>\<open>null\<close> and on a primitive string it throws a TypeError.
  On an object it sets an own property, except for the name \<^verbatim>\<open>__proto__\<close> when the
  object does not own it: that assignment runs the inherited setter, which ignores a
  value that is neither an object nor \<^verbatim>\<open>null\<close> and creates no property.
\<close>

fun js_put :: "heap \<Rightarrow> jsval \<Rightarrow> string \<Rightarrow> jsval \<Rightarrow> (error + heap) option" where
  "js_put h (Ref a) k v =
     (if a < length h
      then (if k = ''__proto__'' \<and> k \<notin> set (map fst (h ! a))
            then (if is_object v \<or> v = Null then None else Some (Inr h))
            else Some (Inr (h[a := AList.update k v (h ! a)])))
      else None)"
| "js_put h Undefined k v = Some (Inl TypeError)"
| "js_put h Null k v = Some (Inl TypeError)"
| "js_put h (Str s) k v = Some (Inl TypeError)"
| "js_put h t k v = None"

text \<open>Decimal rendering of an array index, for the index keys of a string.\<close>

fun digit :: "nat \<Rightarrow> char" where
  "digit n = ''0123456789'' ! (n mod 10)"

function string_of_nat :: "nat \<Rightarrow> string" where
  "string_of_nat n = (if n < 10 then [digit n] else string_of_nat (n div 10) @ [digit n])"
  by pat_completeness auto
termination
  by (relation "measure id") auto

declare string_of_nat.simps [simp del]

text \<open>The own property names of a primitive string: its indices and \<^verbatim>\<open>length\<close>.\<close>

definition str_indices :: "string \<Rightarrow> string list" where
  "str_indices s = map string_of_nat [0..<length s]"

text \<open>
  \<^verbatim>\<open>delete target[key]\<close> in strict mode: removes an own property of an object and
  leaves what the object inherits alone; on a string it throws for the non-configurable
  own properties and does nothing otherwise; on \<^verbatim>\<open>undefined\<close> and \<^verbatim>\<open>null\<close> it throws.
\<close>

fun js_delete :: "heap \<Rightarrow> jsval \<Rightarrow> string \<Rightarrow> (error + heap) option" where
  "js_delete h (Ref a) k =
     (if a < length h then Some (Inr (h[a := AList.delete k (h ! a)])) else None)"
| "js_delete h (Str s) k =
     Some (if k \<in> set (str_indices s) \<or> k = ''length'' then Inl TypeError else Inr h)"
| "js_delete h Undefined k = Some (Inl TypeError)"
| "js_delete h Null k = Some (Inl TypeError)"
| "js_delete h t k = None"

text \<open>
  \<^verbatim>\<open>Object.assign({}, source)\<close>: a fresh object with the own enumerable properties of
  the source; a string source contributes one property per index, \<^verbatim>\<open>undefined\<close> and
  \<^verbatim>\<open>null\<close> contribute nothing, and neither do the built-in objects, whose own properties
  are not enumerable. The properties are assigned to the copy one by one; a source that
  owned a property named \<^verbatim>\<open>__proto__\<close> would hand its value to the inherited setter of the
  copy, but objects whose properties are assigned own none of that name.
\<close>

fun object_assign :: "heap \<Rightarrow> jsval \<Rightarrow> jsval" where
  "object_assign h (Str s) = Obj (map (\<lambda>i. (string_of_nat i, Str [s ! i])) [0..<length s])"
| "object_assign h source = (case own_props h source of None \<Rightarrow> Obj [] | Some ps \<Rightarrow> Obj ps)"

text \<open>
  Handing a value to the cache: an object given by its content becomes an object of the
  heap, its parts first; every other value is passed as it is. \<open>alloc v n\<close> is the value
  that is passed and the objects that are made, when the first free index is \<open>n\<close>.
\<close>

fun alloc :: "jsval \<Rightarrow> nat \<Rightarrow> jsval \<times> heap"
and alloc_props :: "props \<Rightarrow> nat \<Rightarrow> props \<times> heap"
where
  "alloc (Obj kvs) n = (let (ps, m) = alloc_props kvs n in (Ref (n + length m), m @ [ps]))"
| "alloc Undefined n = (Undefined, [])"
| "alloc Null n = (Null, [])"
| "alloc (Str s) n = (Str s, [])"
| "alloc (Ref a) n = (Ref a, [])"
| "alloc ObjectPrototype n = (ObjectPrototype, [])"
| "alloc (NativeFunction k) n = (NativeFunction k, [])"
| "alloc_props [] n = ([], [])"
| "alloc_props ((k, v) # kvs) n =
     (let (v', m1) = alloc v n;
          (ps, m2) = alloc_props kvs (n + length m1)
      in ((k, v') # ps, m1 @ m2))"

definition intern :: "jsval \<Rightarrow> heap \<Rightarrow> jsval \<times> heap" where
  "intern v h = (let (r, m) = alloc v (length h) in (r, h @ m))"

text \<open>
  \<^verbatim>\<open>key.split(separator)\<close> for a string separator: the empty separator splits into
  single characters; otherwise the occurrences of the separator are found from the left.
\<close>

function split_on :: "string \<Rightarrow> string \<Rightarrow> string list" where
  "split_on sep [] = [[]]"
| "split_on sep (c # cs) =
     (if sep \<noteq> [] \<and> take (length sep) (c # cs) = sep
      then [] # split_on sep (drop (length sep) (c # cs))
      else (case split_on sep cs of
              [] \<Rightarrow> [[c]]
            | seg # segs \<Rightarrow> (c # seg) # segs))"
  by pat_completeness auto
termination
  by (relation "measure (\<lambda>(sep, s). length s)") auto

definition js_split :: "string \<Rightarrow> string \<Rightarrow> string list" where
  "js_split sep s = (if sep = [] then map (\<lambda>c. [c]) s else split_on sep s)"

text \<open>
  \<^verbatim>\<open>path[path.length - 1]\<close>: the last segment; when the array is empty the index is -1,
  the read yields \<^verbatim>\<open>undefined\<close>, and as a property key that is the string "undefined".
\<close>

definition terminal :: "string list \<Rightarrow> string" where
  "terminal path = (if path = [] then ''undefined'' else last path)"

section \<open>The cache (library/cache.js)\<close>

text \<open>
  A TTL argument is a number (of milliseconds; NaN is left out), a boolean, or omitted.
  The state of a cache is its root value, the heap that the objects live in, its
  configuration, and the timer queue of the runtime: every pending timer is the time it
  is due at and the key it removes.
\<close>

datatype ttl_value = Omitted | Flag bool | Millis int

fun truthy :: "ttl_value \<Rightarrow> bool" where
  "truthy Omitted = False"
| "truthy (Flag b) = b"
| "truthy (Millis n) = (n \<noteq> 0)"

record config =
  ttl :: ttl_value
  separator :: string

record cache =
  cacheStorage :: jsval
  heap :: heap
  config :: config
  now :: nat
  timers :: "(nat \<times> string) list"

text \<open>
  The constructor: the root is a fresh empty object.
  \<^verbatim>\<open>Object.assign({ttl: 108000, separator: '/'}, options)\<close>: an option left out keeps its
  default.
\<close>

definition Cache :: "ttl_value option \<Rightarrow> string option \<Rightarrow> cache" where
  "Cache ttl_opt sep_opt =
     \<lparr> cacheStorage = Ref 0,
       heap = [[]],
       config = \<lparr> ttl = (case ttl_opt of None \<Rightarrow> Millis 108000 | Some t \<Rightarrow> t),
                  separator = (case sep_opt of None \<Rightarrow> ''/'' | Some s \<Rightarrow> s) \<rparr>,
       now = 0,
       timers = [] \<rparr>"

subsection \<open>get\<close>

text \<open>
  The loop of \<^verbatim>\<open>get\<close>, which starts at a copy of the root: before each segment the
  current value must be a truthy object, otherwise the promise is rejected without a
  reason. After the last segment an \<^verbatim>\<open>undefined\<close> result evaluates \<^verbatim>\<open>path[ i ]\<close> outside
  the scope of the loop variable, which throws a ReferenceError inside the executor: the
  promise is rejected as well.
\<close>

fun get_loop :: "heap \<Rightarrow> jsval \<Rightarrow> string list \<Rightarrow> jsval outcome" where
  "get_loop h storage [] =
     (if storage = Undefined then Rejected ReferenceError else Resolved storage)"
| "get_loop h storage (k # ks) =
     (if js_falsy storage \<or> js_typeof storage \<noteq> ''object'' then Rejected NoReason
      else get_loop h (js_get h storage k) ks)"

definition cache_get :: "cache \<Rightarrow> string \<Rightarrow> jsval outcome" where
  "cache_get c key =
     (let path = js_split (separator (config c)) key;
          storage = object_assign (heap c) (cacheStorage c)
      in get_loop (heap c) storage path)"

subsection \<open>set\<close>

text \<open>
  The loop of \<^verbatim>\<open>set\<close> over all segments but the last: it moves \<^verbatim>\<open>target\<close> down the
  objects and, where a segment is not in the object, puts a fresh empty object there. It
  yields the object it ends at and the heap. A throw can only happen before the first
  mutation: once a segment is created, the rest of the walk is inside fresh objects.
\<close>

fun set_walk :: "heap \<Rightarrow> jsval \<Rightarrow> string list \<Rightarrow> (error + jsval \<times> heap) option" where
  "set_walk h target [] = Some (Inr (target, h))"
| "set_walk h target (k # ks) =
     (case js_in h k target of
        None \<Rightarrow> None
      | Some (Inl e) \<Rightarrow> Some (Inl e)
      | Some (Inr True) \<Rightarrow> set_walk h (js_get h target k) ks
      | Some (Inr False) \<Rightarrow>
          (case js_put (h @ [[]]) target k (Ref (length h)) of
             None \<Rightarrow> None
           | Some (Inl e) \<Rightarrow> Some (Inl e)
           | Some (Inr h') \<Rightarrow> set_walk h' (Ref (length h)) ks))"

text \<open>
  \<^verbatim>\<open>setTimeout(callback, delay)\<close>: the delay is converted to a number and a delay
  outside 1 .. 2^31 - 1 becomes 1.
\<close>

fun timer_delay :: "ttl_value \<Rightarrow> nat" where
  "timer_delay (Millis n) = (if 1 \<le> n \<and> n \<le> 2147483647 then nat n else 1)"
| "timer_delay t = 1"

definition setTimeout :: "string \<Rightarrow> ttl_value \<Rightarrow> cache \<Rightarrow> cache" where
  "setTimeout key delay c = c\<lparr>timers := timers c @ [(now c + timer_delay delay, key)]\<rparr>"

text \<open>
  \<^verbatim>\<open>set\<close>: the effective TTL is \<^verbatim>\<open>ttl || this.config.ttl\<close>. The empty key replaces the
  root; any other key is walked and the last segment is assigned in the object the walk
  ends at. An executor that throws rejects the promise and the \<^verbatim>\<open>then\<close> callback does
  not run. The callback schedules the removal under the condition \<^verbatim>\<open>!ttl\<close>, as the
  source has it. The first component is \<open>None\<close> when the call leaves the model; the state
  next to it then carries no information.
\<close>

definition cache_set :: "cache \<Rightarrow> string \<Rightarrow> jsval \<Rightarrow> ttl_value \<Rightarrow> unit outcome option \<times> cache" where
  "cache_set c key v ttl_arg =
     (let ttl_eff = (if truthy ttl_arg then ttl_arg else ttl (config c));
          path = js_split (separator (config c)) key;
          schedule = (if \<not> truthy ttl_eff then setTimeout key ttl_eff else id)
      in if length key = 0
         then (let (v', h) = intern v (heap c)
               in (Some (Resolved ()), schedule (c\<lparr>cacheStorage := v', heap := h\<rparr>)))
         else (case set_walk (heap c) (cacheStorage c) (butlast path) of
                 None \<Rightarrow> (None, c)
               | Some (Inl e) \<Rightarrow> (Some (Rejected e), c)
               | Some (Inr (target, h1)) \<Rightarrow>
                   (let (v', h2) = intern v h1
                    in case js_put h2 target (terminal path) v' of
                         None \<Rightarrow> (None, c)
                       | Some (Inl e) \<Rightarrow> (Some (Rejected e), c)
                       | Some (Inr h3) \<Rightarrow> (Some (Resolved ()), schedule (c\<lparr>heap := h3\<rparr>)))))"

subsection \<open>remove\<close>

text \<open>
  The loop of \<^verbatim>\<open>remove\<close> only reads. It ends in one of three ways: it throws, it meets
  an object without the next segment (the promise is resolved and nothing changes), or
  it arrives at the value that the \<^verbatim>\<open>delete\<close> is applied to. After the \<^verbatim>\<open>delete\<close> the
  executor returns without calling \<^verbatim>\<open>resolve\<close>.
\<close>

datatype removal = Threw error | Absent | Arrived jsval

fun remove_walk :: "heap \<Rightarrow> jsval \<Rightarrow> string list \<Rightarrow> removal option" where
  "remove_walk h target [] = Some (Arrived target)"
| "remove_walk h target (k # ks) =
     (case js_in h k target of
        None \<Rightarrow> None
      | Some (Inl e) \<Rightarrow> Some (Threw e)
      | Some (Inr False) \<Rightarrow> Some Absent
      | Some (Inr True) \<Rightarrow> remove_walk h (js_get h target k) ks)"

definition cache_remove :: "cache \<Rightarrow> string \<Rightarrow> unit outcome option \<times> cache" where
  "cache_remove c key =
     (let path = js_split (separator (config c)) key
      in case remove_walk (heap c) (cacheStorage c) (butlast path) of
           None \<Rightarrow> (None, c)
         | Some (Threw e) \<Rightarrow> (Some (Rejected e), c)
         | Some Absent \<Rightarrow> (Some (Resolved ()), c)
         | Some (Arrived target) \<Rightarrow>
             (case js_delete (heap c) target (terminal path) of
                None \<Rightarrow> (None, c)
              | Some (Inl e) \<Rightarrow> (Some (Rejected e), c)
              | Some (Inr h) \<Rightarrow> (Some Pending, c\<lparr>heap := h\<rparr>)))"

subsection \<open>Time\<close>

text \<open>
  Letting \<open>d\<close> milliseconds pass: the timers that are due fire in the order of their
  due times, each calling \<^verbatim>\<open>remove\<close> on its key; nobody waits for the promise.
\<close>

definition elapse :: "nat \<Rightarrow> cache \<Rightarrow> cache" where
  "elapse d c =
     (let t = now c + d;
          due = filter (\<lambda>(at, k). at \<le> t) (timers c);
          later = filter (\<lambda>(at, k). \<not> at \<le> t) (timers c)
      in fold (\<lambda>(at, k) c'. snd (cache_remove c' k)) (sort_key fst due)
           (c\<lparr>now := t, timers := later\<rparr>))"

section \<open>The file system and the path module\<close>

text \<open>
  The disk is a tree. What \<^verbatim>\<open>fs.lstat\<close> answers at a path is the node found there:
  a regular file with its content, a directory with its entries in the order
  \<^verbatim>\<open>fs.readdir\<close> lists them, a node that is neither (a link, a socket), or a node
  whose \<^verbatim>\<open>lstat\<close> fails with an error code. A path that leads nowhere fails with
  ENOENT. A path is the list of its segments below the file system root.
\<close>

datatype fsnode =
    File string
  | Dir "(string \<times> fsnode) list"
  | Other
  | Failing string

type_synonym path = "string list"

fun node_at :: "fsnode \<Rightarrow> path \<Rightarrow> fsnode" where
  "node_at n [] = n"
| "node_at (Dir kids) (s # p) =
     (case map_of kids s of None \<Rightarrow> Failing ''ENOENT'' | Some k \<Rightarrow> node_at k p)"
| "node_at (File content) (s # p) = Failing ''ENOTDIR''"
| "node_at Other (s # p) = Failing ''ENOTDIR''"
| "node_at (Failing code) (s # p) = Failing code"

datatype stats = IsFile | IsDirectory | IsOther

definition lstat :: "fsnode \<Rightarrow> path \<Rightarrow> string + stats" where
  "lstat disk p =
     (case node_at disk p of
        File content \<Rightarrow> Inr IsFile
      | Dir kids \<Rightarrow> Inr IsDirectory
      | Other \<Rightarrow> Inr IsOther
      | Failing code \<Rightarrow> Inl code)"

definition readFile :: "fsnode \<Rightarrow> path \<Rightarrow> string + string" where
  "readFile disk p =
     (case node_at disk p of
        File content \<Rightarrow> Inr content
      | Dir kids \<Rightarrow> Inl ''EISDIR''
      | Other \<Rightarrow> Inl ''EINVAL''
      | Failing code \<Rightarrow> Inl code)"

definition readdir :: "fsnode \<Rightarrow> path \<Rightarrow> string + string list" where
  "readdir disk p =
     (case node_at disk p of
        Dir kids \<Rightarrow> Inr (map fst kids)
      | Failing code \<Rightarrow> Inl code
      | other \<Rightarrow> Inl ''ENOTDIR'')"

text \<open>\<^verbatim>\<open>fs.exists\<close> never rejects: it answers whether the path can be reached.\<close>

definition exists :: "fsnode \<Rightarrow> path \<Rightarrow> bool" where
  "exists disk p = (case node_at disk p of Failing code \<Rightarrow> False | other \<Rightarrow> True)"



text \<open>
  \<^verbatim>\<open>path.join(base, rel)\<close> for a normalised absolute base: the segments of \<open>rel\<close> are
  appended, empty and \<^verbatim>\<open>.\<close> segments are dropped, \<^verbatim>\<open>..\<close> removes the segment before it.
  \<^verbatim>\<open>path.basename\<close> is the last segment, and the empty string for the file system root.
\<close>

definition path_join :: "path \<Rightarrow> string \<Rightarrow> path" where
  "path_join base rel =
     fold (\<lambda>s acc. if s = [] \<or> s = ''.'' then acc
                    else if s = ''..'' then butlast acc
                    else acc @ [s])
          (split_on ''/'' rel) base"

definition basename :: "path \<Rightarrow> string" where
  "basename p = (if p = [] then [] else last p)"

section \<open>The tree database (library/treedb.js)\<close>

record treedb =
  rootPath :: path
  root :: path
  db_cache :: cache
  disk :: fsnode

text \<open>
  The constructor without the bootstrap it starts. \<^verbatim>\<open>Object.assign\<close> merges the options
  one level deep: a caller that passes cache options replaces the default
  \<^verbatim>\<open>{ttl: false}\<close> as a whole.
\<close>

definition TreeDB :: "path \<Rightarrow> (ttl_value option \<times> string option) option \<Rightarrow> fsnode \<Rightarrow> treedb" where
  "TreeDB rp cache_options d =
     \<lparr> rootPath = rp,
       root = path_join rp ''storage'',
       db_cache = (case cache_options of
                     None \<Rightarrow> Cache (Some (Flag False)) None
                   | Some (t, s) \<Rightarrow> Cache t s),
       disk = d \<rparr>"

subsection \<open>readBranch\<close>



subsection \<open>readLeaf and readPath\<close>

definition readLeaf :: "fsnode \<Rightarrow> path \<Rightarrow> jsval outcome" where
  "readLeaf d nodePath =
     (case readFile d nodePath of
        Inl code \<Rightarrow> Rejected (FsError code)
      | Inr content \<Rightarrow> Resolved (Obj [(basename nodePath, Str content)]))"

text \<open>What \<^verbatim>\<open>readPath\<close> resolves to: a wrapped leaf, the names in a directory, or \<^verbatim>\<open>undefined\<close>.\<close>

datatype reading = Content jsval | ChildNodes "string list" | NotThere

text \<open>The \<^verbatim>\<open>catch\<close> handler shared by \<^verbatim>\<open>readPath\<close> and \<^verbatim>\<open>readBranch\<close>.\<close>

definition on_fs_error :: "string \<Rightarrow> 'a \<Rightarrow> 'a outcome" where
  "on_fs_error code nothing =
     (if code = ''ENOENT'' then Resolved nothing else Rejected (FsError code))"

definition readPath :: "treedb \<Rightarrow> string \<Rightarrow> reading outcome" where
  "readPath db nodePath =
     (let p = path_join (root db) nodePath
      in case lstat (disk db) p of
           Inl code \<Rightarrow> on_fs_error code NotThere
         | Inr st \<Rightarrow>
             if st = IsFile then
               (case readLeaf (disk db) p of
                  Resolved leaf \<Rightarrow> Resolved (Content leaf)
                | Rejected e \<Rightarrow> Rejected e
                | Pending \<Rightarrow> Pending)
             else if st = IsDirectory then
               (case readdir (disk db) p of
                  Inl code \<Rightarrow> on_fs_error code NotThere
                | Inr childNodes \<Rightarrow> Resolved (ChildNodes childNodes))
             else Pending)"

subsection \<open>getBranch\<close>



subsection \<open>loadDatabase\<close>



section \<open>Notions used to state the properties\<close>

text \<open>
  The traversal of the data model: following a sequence of segments from a node ends at
  a node, or fails as soon as a segment is not a key that the current Branch owns or the
  current node is not a Branch. A Leaf has no children.
\<close>

fun traverse :: "heap \<Rightarrow> jsval \<Rightarrow> string list \<Rightarrow> jsval option" where
  "traverse h t [] = Some t"
| "traverse h t (k # ks) =
     (case own_props h t of
        None \<Rightarrow> None
      | Some ps \<Rightarrow> (case map_of ps k of None \<Rightarrow> None | Some child \<Rightarrow> traverse h child ks))"

text \<open>A path is absent from a tree when the traversal fails or ends at \<^verbatim>\<open>undefined\<close>.\<close>

definition absent :: "heap \<Rightarrow> jsval \<Rightarrow> string list \<Rightarrow> bool" where
  "absent h t p = (case traverse h t p of None \<Rightarrow> True | Some v \<Rightarrow> v = Undefined)"

text \<open>
  \<open>represents h r v\<close>: in the heap \<open>h\<close> the value \<open>r\<close> is the value \<open>v\<close>; when \<open>v\<close> is an
  object given by its content, \<open>r\<close> refers to an object with exactly these properties,
  in this order.
\<close>

fun represents :: "heap \<Rightarrow> jsval \<Rightarrow> jsval \<Rightarrow> bool"
and represents_props :: "heap \<Rightarrow> props \<Rightarrow> props \<Rightarrow> bool"
where
  "represents h r (Obj kvs) =
     (case r of Ref a \<Rightarrow> a < length h \<and> represents_props h (h ! a) kvs | other \<Rightarrow> False)"
| "represents h r Undefined = (r = Undefined)"
| "represents h r Null = (r = Null)"
| "represents h r (Str s) = (r = Str s)"
| "represents h r (Ref a) = (r = Ref a)"
| "represents h r ObjectPrototype = (r = ObjectPrototype)"
| "represents h r (NativeFunction k) = (r = NativeFunction k)"
| "represents_props h ps [] = (ps = [])"
| "represents_props h ps ((k, v) # kvs) =
     (case ps of
        [] \<Rightarrow> False
      | (k', r) # ps' \<Rightarrow> k' = k \<and> represents h r v \<and> represents_props h ps' kvs)"

text \<open>A list of segments none of which is a name inherited from \<^verbatim>\<open>Object.prototype\<close>.\<close>

abbreviation plain :: "string list \<Rightarrow> bool" where
  "plain ks \<equiv> list_all (\<lambda>s. s \<notin> set inherited) ks"

text \<open>
  \<open>walkable h t ks f\<close>: the walk of \<^verbatim>\<open>set\<close> from \<open>t\<close> over the segments \<open>ks\<close> stays among the
  objects of the heap and the last segment \<open>f\<close> can be assigned. The node \<open>t\<close> is a Branch
  and so is every node stored along \<open>ks\<close>, as far as the segments are owned; the first
  segment that its Branch does not own is not a name inherited from \<^verbatim>\<open>Object.prototype\<close>,
  nor is any segment after it; and \<open>f\<close> is not the name \<^verbatim>\<open>__proto__\<close>.
\<close>

fun walkable :: "heap \<Rightarrow> jsval \<Rightarrow> string list \<Rightarrow> string \<Rightarrow> bool" where
  "walkable h (Ref a) [] f = (a < length h \<and> f \<noteq> ''__proto__'')"
| "walkable h (Ref a) (k # ks) f =
     (a < length h \<and>
      (case map_of (h ! a) k of
         Some child \<Rightarrow> walkable h child ks f
       | None \<Rightarrow> plain (k # ks) \<and> f \<noteq> ''__proto__''))"
| "walkable h t ks f = False"

text \<open>
  The properties that a walk over owned segments follows, as pairs of an object and a
  key; and whether the property \<open>f\<close> of the node that the walk over \<open>ks\<close> ends at is one of
  them, which takes an object that is stored somewhere inside itself.
\<close>

fun links :: "heap \<Rightarrow> jsval \<Rightarrow> string list \<Rightarrow> (jsval \<times> string) list" where
  "links h t [] = []"
| "links h t (k # ks) =
     (case own_props h t of
        None \<Rightarrow> []
      | Some ps \<Rightarrow> (case map_of ps k of None \<Rightarrow> [] | Some child \<Rightarrow> (t, k) # links h child ks))"

definition rewrites_link :: "heap \<Rightarrow> jsval \<Rightarrow> string list \<Rightarrow> string \<Rightarrow> bool" where
  "rewrites_link h t ks f =
     (case traverse h t ks of None \<Rightarrow> False | Some parent \<Rightarrow> (parent, f) \<in> set (links h t ks))"

text \<open>
  The one property that \<^verbatim>\<open>set\<close> assigns in an object that existed before: the walk over
  the path follows owned segments until a Branch does not own the next one or only the
  last segment is left; the property is that segment in that Branch.
\<close>

fun position :: "heap \<Rightarrow> jsval \<Rightarrow> string list \<Rightarrow> jsval \<times> string" where
  "position h t [] = (t, [])"
| "position h t [k] = (t, k)"
| "position h t (k # ks) =
     (case own_props h t of
        None \<Rightarrow> (t, k)
      | Some ps \<Rightarrow> (case map_of ps k of None \<Rightarrow> (t, k) | Some child \<Rightarrow> position h child ks))"

text \<open>The Branch that a walk over owned segments through Branches arrives at, as its index.\<close>

fun parent_of :: "heap \<Rightarrow> jsval \<Rightarrow> string list \<Rightarrow> nat option" where
  "parent_of h (Ref a) [] = (if a < length h then Some a else None)"
| "parent_of h (Ref a) (k # ks) =
     (if a < length h
      then (case map_of (h ! a) k of None \<Rightarrow> None | Some child \<Rightarrow> parent_of h child ks)
      else None)"
| "parent_of h t ks = None"

text \<open>
  A segment of \<open>ks\<close> is missing from \<open>t\<close> when the walk from \<open>t\<close> through Branches reaches a
  Branch that neither owns nor inherits the next segment.
\<close>

fun missing_segment :: "heap \<Rightarrow> jsval \<Rightarrow> string list \<Rightarrow> bool" where
  "missing_segment h (Ref a) (k # ks) =
     (a < length h \<and>
      (case map_of (h ! a) k of
         None \<Rightarrow> k \<notin> set inherited
       | Some child \<Rightarrow> missing_segment h child ks))"
| "missing_segment h t ks = False"

text \<open>
  \<open>answers_inherited h t ks\<close>: the walk of \<^verbatim>\<open>get\<close> from \<open>t\<close> over \<open>ks\<close> ends at a member of
  \<^verbatim>\<open>Object.prototype\<close>. It follows owned segments to a segment that the object there
  does not own but inherits; that segment is the last one, or it is \<^verbatim>\<open>__proto__\<close> and the
  rest of the path ends at a member of \<^verbatim>\<open>Object.prototype\<close>, whose own \<^verbatim>\<open>__proto__\<close> is
  \<^verbatim>\<open>null\<close>.
\<close>

fun answers_inherited :: "heap \<Rightarrow> jsval \<Rightarrow> string list \<Rightarrow> bool" where
  "answers_inherited h t [] = False"
| "answers_inherited h ObjectPrototype (k # ks) = (k \<in> set inherited \<and> ks = [])"
| "answers_inherited h t (k # ks) =
     (case own_props h t of
        None \<Rightarrow> False
      | Some ps \<Rightarrow>
          (case map_of ps k of
             None \<Rightarrow> k \<in> set inherited \<and>
                      (ks = [] \<or> (k = ''__proto__'' \<and> answers_inherited h ObjectPrototype ks))
           | Some child \<Rightarrow> answers_inherited h child ks))"

text \<open>Whether an object owns a property of the name \<open>k\<close>.\<close>

definition owns :: "heap \<Rightarrow> jsval \<Rightarrow> string \<Rightarrow> bool" where
  "owns h t k = (case own_props h t of None \<Rightarrow> False | Some ps \<Rightarrow> k \<in> set (map fst ps))"

text \<open>A path of one segment that is an index of the string \<open>v\<close>.\<close>

fun string_index :: "jsval \<Rightarrow> string list \<Rightarrow> bool" where
  "string_index (Str s) [k] = (k \<in> set (str_indices s))"
| "string_index v ks = False"

text \<open>The segments of a key under the separator of a cache.\<close>

abbreviation segments :: "cache \<Rightarrow> string \<Rightarrow> string list" where
  "segments c key \<equiv> js_split (separator (config c)) key"

text \<open>A cache with the default configuration after \<^verbatim>\<open>set('a', 'hello')\<close>: the root holds one Leaf.\<close>

definition leaf_cache :: cache where
  "leaf_cache = snd (cache_set (Cache None None) ''a'' (Str ''hello'') Omitted)"

text \<open>The same cache after \<^verbatim>\<open>set('b/c', 'v', 5)\<close>.\<close>

definition nested_cache :: cache where
  "nested_cache = snd (cache_set leaf_cache ''b/c'' (Str ''v'') (Millis 5))"

text \<open>
  A cache that holds one object in two places, after \<^verbatim>\<open>o = {}; set('a', o); set('b', o)\<close>,
  and a cache that holds an object inside itself, after \<^verbatim>\<open>o = {}; set('x', o); set('x/y', o)\<close>.
  In both the object \<open>o\<close> is at index 1 of the heap.
\<close>

definition shared_cache :: cache where
  "shared_cache =
     snd (cache_set (snd (cache_set (Cache None None) ''a'' (Obj []) Omitted)) ''b'' (Ref 1) Omitted)"

definition looped_cache :: cache where
  "looped_cache =
     snd (cache_set (snd (cache_set (Cache None None) ''x'' (Obj []) Omitted)) ''x/y'' (Ref 1) Omitted)"

text \<open>
  A cache after \<^verbatim>\<open>set('toString', 'old'); set('', {})\<close>, and one after
  \<^verbatim>\<open>set('0', 'old'); set('', 'abc')\<close>, whose root is a Leaf.
\<close>

definition emptied_cache :: cache where
  "emptied_cache =
     snd (cache_set (snd (cache_set (Cache None None) ''toString'' (Str ''old'') Omitted)) [] (Obj []) Omitted)"

definition string_root_cache :: cache where
  "string_root_cache =
     snd (cache_set (snd (cache_set (Cache None None) ''0'' (Str ''old'') Omitted)) [] (Str ''abc'') Omitted)"



text \<open>
  Databases under \<^verbatim>\<open>/db\<close> with the default options: one whose storage holds an entry
  that \<^verbatim>\<open>lstat\<close> cannot read, one whose storage holds a directory with such an entry,
  one with a small regular tree, and one whose cache holds a Leaf under \<^verbatim>\<open>a\<close> while the
  disk has a directory there.
\<close>

definition locked_db :: treedb where
  "locked_db = TreeDB [''db''] None
     (Dir [(''db'', Dir [(''storage'', Dir [(''locked'', Failing ''EACCES'')])])])"




section \<open>Facts about the primitives and the walks\<close>

lemma split_on_nonempty: "split_on sep s \<noteq> []"
proof (induction sep s rule: split_on.induct)
  case (1 sep)
  then show ?case by simp
next
  case (2 sep c cs)
  show ?case by (cases "split_on sep cs") simp_all
qed

lemma js_split_nonempty: "key \<noteq> [] \<Longrightarrow> js_split sep key \<noteq> []"
  by (simp add: js_split_def split_on_nonempty)

lemma path_snoc: "path \<noteq> [] \<Longrightarrow> butlast path @ [terminal path] = path"
  by (simp add: terminal_def)

text \<open>The objects made from a content have that content, whatever the heap holds before and after them.\<close>

lemma alloc_represents:
  "alloc v n = (r, m) \<Longrightarrow> length g = n \<Longrightarrow> represents (g @ m @ x) r v"
  "alloc_props kvs n = (ps, m) \<Longrightarrow> length g = n \<Longrightarrow> represents_props (g @ m @ x) ps kvs"
proof (induction v n and kvs n arbitrary: r m g x and ps m g x rule: alloc_alloc_props.induct)
  case (1 kvs n)
  obtain ps' m' where a: "alloc_props kvs n = (ps', m')" by (cases "alloc_props kvs n")
  with 1(2) have r: "r = Ref (n + length m')" and m: "m = m' @ [ps']" by simp_all
  have "represents_props (g @ m' @ ([ps'] @ x)) ps' kvs"
    using 1(1) a 1(3) by blast
  then show ?case using 1(3) by (simp add: r m nth_append)
next
  case (9 k v kvs n)
  obtain v' m1 where a: "alloc v n = (v', m1)" by (cases "alloc v n")
  obtain ps' m2 where b: "alloc_props kvs (n + length m1) = (ps', m2)"
    by (cases "alloc_props kvs (n + length m1)")
  from 9(3) a b have ps: "ps = (k, v') # ps'" and m: "m = m1 @ m2" by simp_all
  have "represents (g @ m1 @ (m2 @ x)) v' v" using 9(1) a 9(4) by blast
  moreover have "represents_props ((g @ m1) @ m2 @ x) ps' kvs"
    using 9(2)[OF a[symmetric] refl b, of "g @ m1" x] 9(4) by simp
  ultimately show ?case by (simp add: ps m)
qed auto

lemma proto_inherited: "''__proto__'' \<in> set inherited"
  by (simp add: inherited_def)

lemma js_in_Ref:
  "a < length h \<Longrightarrow> js_in h k (Ref a) = Some (Inr (map_of (h ! a) k \<noteq> None \<or> k \<in> set inherited))"
  by (simp add: map_of_eq_None_iff)

lemma update_fresh: "map_of ps k = None \<Longrightarrow> AList.update k v ps = ps @ [(k, v)]"
  by (induction ps) auto

lemma set_walk_own:
  "a < length h \<Longrightarrow> map_of (h ! a) k = Some c \<Longrightarrow> set_walk h (Ref a) (k # ks) = set_walk h c ks"
  by (simp add: js_in_Ref del: js_in.simps)

lemma set_walk_new:
  assumes "a < length h" "map_of (h ! a) k = None" "k \<notin> set inherited"
  shows "set_walk h (Ref a) (k # ks) =
           set_walk ((h @ [[]])[a := h ! a @ [(k, Ref (length h))]]) (Ref (length h)) ks"
proof -
  from assms(3) have "k \<noteq> ''__proto__''" using proto_inherited by auto
  with assms show ?thesis
    by (simp add: js_in_Ref nth_append update_fresh del: js_in.simps)
qed

lemma remove_walk_own:
  "a < length h \<Longrightarrow> map_of (h ! a) k = Some c \<Longrightarrow>
     remove_walk h (Ref a) (k # ks) = remove_walk h c ks"
  by (simp add: js_in_Ref del: js_in.simps)

lemma remove_walk_missing:
  "a < length h \<Longrightarrow> map_of (h ! a) k = None \<Longrightarrow> k \<notin> set inherited \<Longrightarrow>
     remove_walk h (Ref a) (k # ks) = Some Absent"
  by (simp add: js_in_Ref del: js_in.simps)

lemma parent_of_Some: "parent_of h t ks = Some p \<Longrightarrow> p < length h"
proof (induction ks arbitrary: t)
  case Nil
  then show ?case by (cases t) (auto split: if_splits)
next
  case (Cons k ks)
  then show ?case by (cases t) (auto split: if_splits option.splits)
qed

lemma parent_of_Ref: "parent_of h t ks = Some p \<Longrightarrow> \<exists>a. t = Ref a \<and> a < length h"
  by (cases t; cases ks) (auto split: if_splits)

lemma parent_of_append:
  "parent_of h t xs = Some q \<Longrightarrow> parent_of h t (xs @ rest) = parent_of h (Ref q) rest"
proof (induction xs arbitrary: t)
  case Nil
  then show ?case by (cases t) (auto split: if_splits)
next
  case (Cons k xs)
  then show ?case by (cases t) (auto split: if_splits option.splits)
qed

lemma set_walk_existing:
  "parent_of h t xs = Some q \<Longrightarrow> set_walk h t (xs @ rest) = set_walk h (Ref q) rest"
proof (induction xs arbitrary: t)
  case Nil
  then show ?case by (cases t) (auto split: if_splits)
next
  case (Cons k xs)
  from Cons.prems obtain a where t: "t = Ref a" and a: "a < length h"
    using parent_of_Ref by blast
  from Cons.prems t a obtain c where c: "map_of (h ! a) k = Some c" and p: "parent_of h c xs = Some q"
    by (auto split: option.splits)
  show ?case unfolding t append_Cons set_walk_own[OF a c] by (rule Cons.IH[OF p])
qed

lemma remove_walk_existing:
  "parent_of h t xs = Some q \<Longrightarrow> remove_walk h t (xs @ rest) = remove_walk h (Ref q) rest"
proof (induction xs arbitrary: t)
  case Nil
  then show ?case by (cases t) (auto split: if_splits)
next
  case (Cons k xs)
  from Cons.prems obtain a where t: "t = Ref a" and a: "a < length h"
    using parent_of_Ref by blast
  from Cons.prems t a obtain c where c: "map_of (h ! a) k = Some c" and p: "parent_of h c xs = Some q"
    by (auto split: option.splits)
  show ?case unfolding t append_Cons remove_walk_own[OF a c] by (rule Cons.IH[OF p])
qed

lemma traverse_existing:
  "parent_of h t xs = Some q \<Longrightarrow> traverse h t (xs @ rest) = traverse h (Ref q) rest"
proof (induction xs arbitrary: t)
  case Nil
  then show ?case by (cases t) (auto split: if_splits)
next
  case (Cons k xs)
  then show ?case by (cases t) (auto split: if_splits option.splits)
qed

lemma position_existing:
  "parent_of h t xs = Some q \<Longrightarrow> rest \<noteq> [] \<Longrightarrow>
     position h t (xs @ rest) = position h (Ref q) rest"
proof (induction xs arbitrary: t)
  case Nil
  then show ?case by (cases t) (auto split: if_splits)
next
  case (Cons k xs)
  from Cons.prems obtain a where t: "t = Ref a" and a: "a < length h"
    using parent_of_Ref by blast
  from Cons.prems t a obtain c where c: "map_of (h ! a) k = Some c" and p: "parent_of h c xs = Some q"
    by (auto split: option.splits)
  from Cons.prems(2) obtain y ys where "xs @ rest = y # ys" by (cases "xs @ rest") auto
  then show ?case using Cons.IH[OF p Cons.prems(2)] a c by (simp add: t)
qed

text \<open>The two ways a walkable path is made.\<close>

lemma walkable_cases:
  assumes "walkable h t ks f"
  shows "(\<exists>p. parent_of h t ks = Some p \<and> (f \<noteq> ''__proto__'' \<or> f \<in> set (map fst (h ! p))))
       \<or> (\<exists>xs k ys q. ks = xs @ k # ys \<and> parent_of h t xs = Some q \<and> map_of (h ! q) k = None
            \<and> list_all (\<lambda>s. s \<notin> set inherited) (k # ys) \<and> f \<noteq> ''__proto__'')"
  using assms
proof (induction ks arbitrary: t)
  case Nil
  then show ?case by (cases t) auto
next
  case (Cons k ks)
  from Cons.prems obtain a where t: "t = Ref a" and a: "a < length h"
    by (cases t) auto
  show ?case
  proof (cases "map_of (h ! a) k")
    case None
    with Cons.prems t a have "list_all (\<lambda>s. s \<notin> set inherited) (k # ks)" "f \<noteq> ''__proto__''"
      by auto
    moreover have "parent_of h t [] = Some a" using t a by simp
    ultimately have "k # ks = [] @ k # ks \<and> parent_of h t [] = Some a \<and> map_of (h ! a) k = None
            \<and> list_all (\<lambda>s. s \<notin> set inherited) (k # ks) \<and> f \<noteq> ''__proto__''"
      using None by simp
    then show ?thesis by blast
  next
    case (Some c)
    with Cons.prems t a have w: "walkable h c ks f" by simp
    from Cons.IH[OF w] show ?thesis
    proof
      assume "\<exists>p. parent_of h c ks = Some p \<and> (f \<noteq> ''__proto__'' \<or> f \<in> set (map fst (h ! p)))"
      then show ?thesis using t a Some by simp
    next
      assume "\<exists>xs k' ys q. ks = xs @ k' # ys \<and> parent_of h c xs = Some q \<and> map_of (h ! q) k' = None
            \<and> list_all (\<lambda>s. s \<notin> set inherited) (k' # ys) \<and> f \<noteq> ''__proto__''"
      then obtain xs k' ys q where x: "ks = xs @ k' # ys" "parent_of h c xs = Some q"
        "map_of (h ! q) k' = None" "list_all (\<lambda>s. s \<notin> set inherited) (k' # ys)" "f \<noteq> ''__proto__''"
        by blast
      have "k # ks = (k # xs) @ k' # ys \<and> parent_of h t (k # xs) = Some q \<and> map_of (h ! q) k' = None
            \<and> list_all (\<lambda>s. s \<notin> set inherited) (k' # ys) \<and> f \<noteq> ''__proto__''"
        using x t a Some by simp
      then show ?thesis by blast
    qed
  qed
qed



lemma fresh_walk:
  assumes "n < length H" "H ! n = []" "plain ks"
  shows "\<exists>p H1. set_walk H (Ref n) ks = Some (Inr (Ref p, H1)) \<and> length H \<le> length H1
           \<and> p < length H1 \<and> H1 ! p = [] \<and> (p = n \<or> length H \<le> p)
           \<and> (\<forall>a < length H. a \<noteq> n \<longrightarrow> H1 ! a = H ! a)
           \<and> (\<forall>H3. length H1 \<le> length H3 \<longrightarrow>
                 (\<forall>a k. n \<le> a \<and> a < length H1 \<and> a \<noteq> p \<longrightarrow> map_of (H3 ! a) k = map_of (H1 ! a) k) \<longrightarrow>
                 parent_of H3 (Ref n) ks = Some p)"
  using assms
proof (induction ks arbitrary: H n)
  case Nil
  then show ?case by auto
next
  case (Cons k ks)
  let ?m = "length H"
  let ?H' = "(H @ [[]])[n := H ! n @ [(k, Ref ?m)]]"
  from Cons.prems have k: "k \<notin> set inherited" and ks: "plain ks" by simp_all
  have step: "set_walk H (Ref n) (k # ks) = set_walk ?H' (Ref ?m) ks"
    using set_walk_new[of n H k ks] Cons.prems(1,2) k by simp
  have m1: "?m < length ?H'" by simp
  have m2: "?H' ! ?m = []" using Cons.prems(1) by (simp add: nth_append)
  from Cons.IH[OF m1 m2 ks] obtain p H1 where
    r: "set_walk ?H' (Ref ?m) ks = Some (Inr (Ref p, H1))" and
    l: "length ?H' \<le> length H1" and p: "p < length H1" and e: "H1 ! p = []" and
    pm: "p = ?m \<or> length ?H' \<le> p" and
    fr: "\<forall>a < length ?H'. a \<noteq> ?m \<longrightarrow> H1 ! a = ?H' ! a" and
    af: "\<forall>H3. length H1 \<le> length H3 \<longrightarrow>
                 (\<forall>a k. ?m \<le> a \<and> a < length H1 \<and> a \<noteq> p \<longrightarrow> map_of (H3 ! a) k = map_of (H1 ! a) k) \<longrightarrow>
                 parent_of H3 (Ref ?m) ks = Some p"
    by blast
  have n1: "H1 ! n = [(k, Ref ?m)]"
    using fr Cons.prems(1,2) by (simp add: nth_append)
  have a: "set_walk H (Ref n) (k # ks) = Some (Inr (Ref p, H1))" using step r by simp
  have b: "length H \<le> length H1" using l by simp
  have c: "p = n \<or> length H \<le> p" using pm by auto
  have d: "\<forall>a < length H. a \<noteq> n \<longrightarrow> H1 ! a = H ! a"
  proof (intro allI impI)
    fix a assume "a < length H" "a \<noteq> n"
    then show "H1 ! a = H ! a" using fr by (simp add: nth_append)
  qed
  have g: "\<forall>H3. length H1 \<le> length H3 \<longrightarrow>
                 (\<forall>a k. n \<le> a \<and> a < length H1 \<and> a \<noteq> p \<longrightarrow> map_of (H3 ! a) k = map_of (H1 ! a) k) \<longrightarrow>
                 parent_of H3 (Ref n) (k # ks) = Some p"
  proof (intro allI impI)
    fix H3 assume L: "length H1 \<le> length H3"
      and A: "\<forall>a k. n \<le> a \<and> a < length H1 \<and> a \<noteq> p \<longrightarrow> map_of (H3 ! a) k = map_of (H1 ! a) k"
    have np: "n \<noteq> p" using pm Cons.prems(1) by auto
    have "map_of (H3 ! n) k = Some (Ref ?m)" using A np l Cons.prems(1) n1 by simp
    moreover have "parent_of H3 (Ref ?m) ks = Some p"
      using af L A Cons.prems(1) by simp
    moreover have "n < length H3" using L l Cons.prems(1) by simp
    ultimately show "parent_of H3 (Ref n) (k # ks) = Some p" by simp
  qed
  from a b p e c d g show ?case by blast
qed

lemma links_own:
  "parent_of h t xs = Some q \<Longrightarrow> (x, k) \<in> set (links h t xs) \<Longrightarrow>
     \<exists>a. x = Ref a \<and> a < length h \<and> map_of (h ! a) k \<noteq> None"
proof (induction xs arbitrary: t)
  case Nil
  then show ?case by simp
next
  case (Cons k' xs)
  from Cons.prems(1) obtain a where t: "t = Ref a" and a: "a < length h"
    using parent_of_Ref by blast
  from Cons.prems(1) t a obtain c where c: "map_of (h ! a) k' = Some c" and p: "parent_of h c xs = Some q"
    by (auto split: option.splits)
  from Cons.prems(2) t a c have "(x, k) = (Ref a, k') \<or> (x, k) \<in> set (links h c xs)" by simp
  then show ?case
  proof
    assume "(x, k) = (Ref a, k')"
    then show ?thesis using a c by simp
  next
    assume "(x, k) \<in> set (links h c xs)"
    from Cons.IH[OF p this] show ?thesis .
  qed
qed

lemma rewalk:
  assumes "parent_of h t xs = Some q" "length h \<le> length H3"
    and "\<And>a k. (Ref a, k) \<in> set (links h t xs) \<Longrightarrow> map_of (H3 ! a) k = map_of (h ! a) k"
  shows "parent_of H3 t xs = Some q"
  using assms
proof (induction xs arbitrary: t)
  case Nil
  then show ?case by (cases t) (auto split: if_splits)
next
  case (Cons k xs)
  from Cons.prems(1) obtain a where t: "t = Ref a" and a: "a < length h"
    using parent_of_Ref by blast
  from Cons.prems(1) t a obtain c where c: "map_of (h ! a) k = Some c" and p: "parent_of h c xs = Some q"
    by (auto split: option.splits)
  have l: "links h t (k # xs) = (Ref a, k) # links h c xs" using t a c by simp
  have "(Ref a, k) \<in> set (links h t (k # xs))" unfolding l by simp
  from Cons.prems(3)[OF this] have "map_of (H3 ! a) k = Some c" using c by simp
  moreover have "parent_of H3 c xs = Some q"
  proof (rule Cons.IH[OF p Cons.prems(2)])
    fix a' k' assume "(Ref a', k') \<in> set (links h c xs)"
    then have "(Ref a', k') \<in> set (links h t (k # xs))" unfolding l by simp
    then show "map_of (H3 ! a') k' = map_of (h ! a') k'" by (rule Cons.prems(3))
  qed
  ultimately show ?case using t a Cons.prems(2) by simp
qed

lemma set_walk_result:
  assumes "walkable h t ks f"
  shows "\<exists>p h1. set_walk h t ks = Some (Inr (Ref p, h1)) \<and> length h \<le> length h1 \<and> p < length h1
      \<and> (f \<noteq> ''__proto__'' \<or> f \<in> set (map fst (h1 ! p)))
      \<and> (\<forall>a k. a < length h \<longrightarrow> (Ref a, k) \<noteq> position h t (ks @ [f]) \<longrightarrow>
             map_of (h1 ! a) k = map_of (h ! a) k)
      \<and> (\<forall>a. a < length h \<longrightarrow> Ref a \<noteq> fst (position h t (ks @ [f])) \<longrightarrow> h1 ! a = h ! a)
      \<and> (p < length h \<longrightarrow> position h t (ks @ [f]) = (Ref p, f))
      \<and> (\<forall>H3. length h1 \<le> length H3 \<longrightarrow>
            (\<forall>a k. a < length h1 \<longrightarrow> (a, k) \<noteq> (p, f) \<longrightarrow> map_of (H3 ! a) k = map_of (h1 ! a) k) \<longrightarrow>
            \<not> rewrites_link h t ks f \<longrightarrow> parent_of H3 t ks = Some p)"
proof -
  from walkable_cases[OF assms] show ?thesis
  proof
    assume "\<exists>p. parent_of h t ks = Some p \<and> (f \<noteq> ''__proto__'' \<or> f \<in> set (map fst (h ! p)))"
    then obtain p where pp: "parent_of h t ks = Some p"
      and fo: "f \<noteq> ''__proto__'' \<or> f \<in> set (map fst (h ! p))" by blast
    have pl: "p < length h" using pp by (rule parent_of_Some)
    have a: "set_walk h t ks = Some (Inr (Ref p, h))"
      using set_walk_existing[OF pp, of "[]"] by simp
    have b: "position h t (ks @ [f]) = (Ref p, f)"
      using position_existing[OF pp, of "[f]"] by simp
    have tr: "traverse h t ks = Some (Ref p)"
      using traverse_existing[OF pp, of "[]"] by simp
    have g: "\<forall>H3. length h \<le> length H3 \<longrightarrow>
            (\<forall>a k. a < length h \<longrightarrow> (a, k) \<noteq> (p, f) \<longrightarrow> map_of (H3 ! a) k = map_of (h ! a) k) \<longrightarrow>
            \<not> rewrites_link h t ks f \<longrightarrow> parent_of H3 t ks = Some p"
    proof (intro allI impI)
      fix H3 assume L: "length h \<le> length H3"
        and A: "\<forall>a k. a < length h \<longrightarrow> (a, k) \<noteq> (p, f) \<longrightarrow> map_of (H3 ! a) k = map_of (h ! a) k"
        and N: "\<not> rewrites_link h t ks f"
      show "parent_of H3 t ks = Some p"
      proof (rule rewalk[OF pp L])
        fix a k assume m: "(Ref a, k) \<in> set (links h t ks)"
        from links_own[OF pp m] have al: "a < length h" by simp
        from N tr m have "(Ref a, k) \<noteq> (Ref p, f)" by (auto simp: rewrites_link_def)
        then show "map_of (H3 ! a) k = map_of (h ! a) k" using A al by simp
      qed
    qed
    from a pl fo b g show ?thesis by auto
  next
    assume "\<exists>xs k ys q. ks = xs @ k # ys \<and> parent_of h t xs = Some q \<and> map_of (h ! q) k = None
            \<and> list_all (\<lambda>s. s \<notin> set inherited) (k # ys) \<and> f \<noteq> ''__proto__''"
    then obtain xs k ys q where ks: "ks = xs @ k # ys" and pq: "parent_of h t xs = Some q"
      and mk: "map_of (h ! q) k = None" and pk: "k \<notin> set inherited" and pys: "plain ys"
      and fp: "f \<noteq> ''__proto__''" by auto
    let ?n = "length h"
    let ?H' = "(h @ [[]])[q := h ! q @ [(k, Ref ?n)]]"
    have ql: "q < length h" using pq by (rule parent_of_Some)
    have s1: "set_walk h t ks = set_walk ?H' (Ref ?n) ys"
      using set_walk_existing[OF pq, of "k # ys"] set_walk_new[OF ql mk pk, of ys] ks by simp
    have n1: "?n < length ?H'" by simp
    have n2: "?H' ! ?n = []" using ql by (simp add: nth_append)
    from fresh_walk[OF n1 n2 pys] obtain p H1 where
      r: "set_walk ?H' (Ref ?n) ys = Some (Inr (Ref p, H1))" and
      l: "length ?H' \<le> length H1" and p: "p < length H1" and e: "H1 ! p = []" and
      pm: "p = ?n \<or> length ?H' \<le> p" and
      fr: "\<forall>a < length ?H'. a \<noteq> ?n \<longrightarrow> H1 ! a = ?H' ! a" and
      af: "\<forall>H3. length H1 \<le> length H3 \<longrightarrow>
             (\<forall>a k. ?n \<le> a \<and> a < length H1 \<and> a \<noteq> p \<longrightarrow> map_of (H3 ! a) k = map_of (H1 ! a) k) \<longrightarrow>
             parent_of H3 (Ref ?n) ys = Some p"
      by blast
    have pge: "length h \<le> p" using pm by auto
    have pos: "position h t (ks @ [f]) = (Ref q, k)"
    proof -
      have "position h t (xs @ (k # ys @ [f])) = position h (Ref q) (k # ys @ [f])"
        by (rule position_existing[OF pq]) simp
      moreover obtain y ys' where "ys @ [f] = y # ys'" by (cases "ys @ [f]") auto
      ultimately show ?thesis using ql mk ks by simp
    qed
    have old: "\<And>a. a < length h \<Longrightarrow> H1 ! a = (if a = q then h ! q @ [(k, Ref ?n)] else h ! a)"
      using fr by (simp add: nth_append)
    have a: "set_walk h t ks = Some (Inr (Ref p, H1))" using s1 r by simp
    have b: "length h \<le> length H1" using l by simp
    have d: "\<forall>a k'. a < length h \<longrightarrow> (Ref a, k') \<noteq> position h t (ks @ [f]) \<longrightarrow>
             map_of (H1 ! a) k' = map_of (h ! a) k'"
      using old pos by (auto simp: map_add_def split: option.split)
    have d2: "\<forall>a. a < length h \<longrightarrow> Ref a \<noteq> fst (position h t (ks @ [f])) \<longrightarrow> H1 ! a = h ! a"
      using old pos by auto
    have c: "p < length h \<longrightarrow> position h t (ks @ [f]) = (Ref p, f)" using pge by simp
    have g: "\<forall>H3. length H1 \<le> length H3 \<longrightarrow>
            (\<forall>a k. a < length H1 \<longrightarrow> (a, k) \<noteq> (p, f) \<longrightarrow> map_of (H3 ! a) k = map_of (H1 ! a) k) \<longrightarrow>
            \<not> rewrites_link h t ks f \<longrightarrow> parent_of H3 t ks = Some p"
    proof (intro allI impI)
      fix H3 assume L: "length H1 \<le> length H3"
        and A: "\<forall>a k. a < length H1 \<longrightarrow> (a, k) \<noteq> (p, f) \<longrightarrow> map_of (H3 ! a) k = map_of (H1 ! a) k"
      have L': "length h \<le> length H3" using L b by simp
      have x: "parent_of H3 t xs = Some q"
      proof (rule rewalk[OF pq L'])
        fix a k' assume m: "(Ref a, k') \<in> set (links h t xs)"
        from links_own[OF pq m] have al: "a < length h" and ow: "map_of (h ! a) k' \<noteq> None" by simp_all
        have "(Ref a, k') \<noteq> (Ref q, k)" using ow mk by auto
        then have "map_of (H1 ! a) k' = map_of (h ! a) k'" using d al pos by simp
        moreover have "map_of (H3 ! a) k' = map_of (H1 ! a) k'" using A al b pge by simp
        ultimately show "map_of (H3 ! a) k' = map_of (h ! a) k'" by simp
      qed
      have "map_of (H1 ! q) k = Some (Ref ?n)" using old[OF ql] mk by (simp add: map_add_def)
      then have y: "map_of (H3 ! q) k = Some (Ref ?n)" using A ql b pge by simp
      have z: "parent_of H3 (Ref ?n) ys = Some p" using af L A pge by simp
      have "parent_of H3 (Ref q) (k # ys) = Some p" using y z ql L' by simp
      then show "parent_of H3 t ks = Some p" using parent_of_append[OF x, of "k # ys"] ks by simp
    qed
    have fo: "f \<noteq> ''__proto__'' \<or> f \<in> set (map fst (H1 ! p))" using fp by simp
    from a b p fo d d2 c g show ?thesis by blast
  qed
qed


lemma setTimeout_fields [simp]:
  "heap (setTimeout key d c) = heap c"
  "cacheStorage (setTimeout key d c) = cacheStorage c"
  "config (setTimeout key d c) = config c"
  "now (setTimeout key d c) = now c"
  by (simp_all add: setTimeout_def)

lemma js_put_Ref:
  assumes "p < length h1" "f \<noteq> ''__proto__'' \<or> f \<in> set (map fst (h1 ! p))"
  shows "js_put (h1 @ m) (Ref p) f r = Some (Inr (h1[p := AList.update f r (h1 ! p)] @ m))"
  using assms by (auto simp: nth_append list_update_append1)

lemma cache_set_heap:
  assumes "key \<noteq> []"
    and "set_walk (heap c) (cacheStorage c) (butlast (segments c key)) = Some (Inr (Ref p, h1))"
    and "p < length h1"
    and "terminal (segments c key) \<noteq> ''__proto__''
           \<or> terminal (segments c key) \<in> set (map fst (h1 ! p))"
    and "alloc v (length h1) = (r, m)"
  shows "fst (cache_set c key v ttl_arg) = Some (Resolved ())"
    and "heap (snd (cache_set c key v ttl_arg))
           = h1[p := AList.update (terminal (segments c key)) r (h1 ! p)] @ m"
    and "cacheStorage (snd (cache_set c key v ttl_arg)) = cacheStorage c"
    and "config (snd (cache_set c key v ttl_arg)) = config c"
  using assms(1,2,5) js_put_Ref[OF assms(3,4), of m r]
  by (simp_all add: cache_set_def intern_def Let_def del: js_put.simps)

lemma alloc_Undefined: "alloc v n = (r, m) \<Longrightarrow> (r = Undefined) = (v = Undefined)"
  by (cases v) (auto split: prod.splits)

lemma cache_set_resolves:
  assumes "key \<noteq> []"
    and "walkable (heap c) (cacheStorage c) (butlast (segments c key)) (terminal (segments c key))"
  shows "fst (cache_set c key v ttl_arg) = Some (Resolved ())"
proof -
  from set_walk_result[OF assms(2)] obtain p h1 where
    "set_walk (heap c) (cacheStorage c) (butlast (segments c key)) = Some (Inr (Ref p, h1))"
    "p < length h1"
    "terminal (segments c key) \<noteq> ''__proto__'' \<or> terminal (segments c key) \<in> set (map fst (h1 ! p))"
    by blast
  moreover obtain r m where "alloc v (length h1) = (r, m)" by (cases "alloc v (length h1)")
  ultimately show ?thesis using cache_set_heap(1)[OF assms(1)] by blast
qed

lemma cache_set_frame:
  assumes "key \<noteq> []"
    and "walkable (heap c) (cacheStorage c) (butlast (segments c key)) (terminal (segments c key))"
  shows "length (heap c) \<le> length (heap (snd (cache_set c key v ttl_arg)))"
    and "\<And>a k. a < length (heap c) \<Longrightarrow>
           (Ref a, k) \<noteq> position (heap c) (cacheStorage c) (segments c key) \<Longrightarrow>
           map_of (heap (snd (cache_set c key v ttl_arg)) ! a) k = map_of (heap c ! a) k"
    and "cacheStorage (snd (cache_set c key v ttl_arg)) = cacheStorage c"
    and "config (snd (cache_set c key v ttl_arg)) = config c"
    and "\<And>a. a < length (heap c) \<Longrightarrow>
           Ref a \<noteq> fst (position (heap c) (cacheStorage c) (segments c key)) \<Longrightarrow>
           heap (snd (cache_set c key v ttl_arg)) ! a = heap c ! a"
proof -
  let ?h = "heap c" and ?ks = "butlast (segments c key)" and ?f = "terminal (segments c key)"
  have path: "?ks @ [?f] = segments c key"
    using js_split_nonempty[OF assms(1)] by (simp add: path_snoc)
  from set_walk_result[OF assms(2)] obtain p h1 where
    w: "set_walk ?h (cacheStorage c) ?ks = Some (Inr (Ref p, h1))" and l: "length ?h \<le> length h1"
    and p: "p < length h1"
    and fo: "?f \<noteq> ''__proto__'' \<or> ?f \<in> set (map fst (h1 ! p))"
    and fr: "\<forall>a k. a < length ?h \<longrightarrow> (Ref a, k) \<noteq> position ?h (cacheStorage c) (?ks @ [?f]) \<longrightarrow>
             map_of (h1 ! a) k = map_of (?h ! a) k"
    and fr2: "\<forall>a. a < length ?h \<longrightarrow> Ref a \<noteq> fst (position ?h (cacheStorage c) (?ks @ [?f])) \<longrightarrow>
             h1 ! a = ?h ! a"
    and ps: "p < length ?h \<longrightarrow> position ?h (cacheStorage c) (?ks @ [?f]) = (Ref p, ?f)"
    by blast
  obtain r m where al: "alloc v (length h1) = (r, m)" by (cases "alloc v (length h1)")
  note res = cache_set_heap[OF assms(1) w p fo al, of ttl_arg]
  show "length ?h \<le> length (heap (snd (cache_set c key v ttl_arg)))"
    using res(2) l by simp
  show "cacheStorage (snd (cache_set c key v ttl_arg)) = cacheStorage c" by (rule res(3))
  show "config (snd (cache_set c key v ttl_arg)) = config c" by (rule res(4))
  fix a k assume a: "a < length ?h"
    and n: "(Ref a, k) \<noteq> position ?h (cacheStorage c) (segments c key)"
  have a1: "a < length h1" using a l by simp
  have "map_of ((h1[p := AList.update ?f r (h1 ! p)] @ m) ! a) k = map_of (h1 ! a) k"
  proof (cases "a = p")
    case True
    then have "k \<noteq> ?f" using ps a n path by auto
    then show ?thesis using True p by (simp add: nth_append update_conv')
  next
    case False
    then show ?thesis using a1 by (simp add: nth_append)
  qed
  moreover have "map_of (h1 ! a) k = map_of (?h ! a) k" using fr a n path by simp
  ultimately show "map_of (heap (snd (cache_set c key v ttl_arg)) ! a) k = map_of (?h ! a) k"
    using res(2) by simp
next
  let ?h = "heap c" and ?ks = "butlast (segments c key)" and ?f = "terminal (segments c key)"
  have path: "?ks @ [?f] = segments c key"
    using js_split_nonempty[OF assms(1)] by (simp add: path_snoc)
  from set_walk_result[OF assms(2)] obtain p h1 where
    w: "set_walk ?h (cacheStorage c) ?ks = Some (Inr (Ref p, h1))" and l: "length ?h \<le> length h1"
    and p: "p < length h1"
    and fo: "?f \<noteq> ''__proto__'' \<or> ?f \<in> set (map fst (h1 ! p))"
    and fr2: "\<forall>a. a < length ?h \<longrightarrow> Ref a \<noteq> fst (position ?h (cacheStorage c) (?ks @ [?f])) \<longrightarrow>
             h1 ! a = ?h ! a"
    and ps: "p < length ?h \<longrightarrow> position ?h (cacheStorage c) (?ks @ [?f]) = (Ref p, ?f)"
    by blast
  obtain r m where al: "alloc v (length h1) = (r, m)" by (cases "alloc v (length h1)")
  note res = cache_set_heap[OF assms(1) w p fo al, of ttl_arg]
  fix a assume a: "a < length ?h"
    and n: "Ref a \<noteq> fst (position ?h (cacheStorage c) (segments c key))"
  have "a \<noteq> p" using ps a n path by auto
  then have "(h1[p := AList.update ?f r (h1 ! p)] @ m) ! a = h1 ! a"
    using a l by (simp add: nth_append)
  moreover have "h1 ! a = ?h ! a" using fr2 a n path by simp
  ultimately show "heap (snd (cache_set c key v ttl_arg)) ! a = ?h ! a" using res(2) by simp
qed

lemma cache_set_written:
  assumes "key \<noteq> []"
    and "walkable (heap c) (cacheStorage c) (butlast (segments c key)) (terminal (segments c key))"
    and "\<not> rewrites_link (heap c) (cacheStorage c) (butlast (segments c key)) (terminal (segments c key))"
  shows "\<exists>p r. parent_of (heap (snd (cache_set c key v ttl_arg))) (cacheStorage c)
                  (butlast (segments c key)) = Some p
           \<and> map_of (heap (snd (cache_set c key v ttl_arg)) ! p) (terminal (segments c key)) = Some r
           \<and> represents (heap (snd (cache_set c key v ttl_arg))) r v
           \<and> (r = Undefined) = (v = Undefined)"
proof -
  let ?h = "heap c" and ?ks = "butlast (segments c key)" and ?f = "terminal (segments c key)"
  let ?H = "heap (snd (cache_set c key v ttl_arg))"
  from set_walk_result[OF assms(2)] obtain p h1 where
    w: "set_walk ?h (cacheStorage c) ?ks = Some (Inr (Ref p, h1))"
    and p: "p < length h1"
    and fo: "?f \<noteq> ''__proto__'' \<or> ?f \<in> set (map fst (h1 ! p))"
    and af: "\<forall>H3. length h1 \<le> length H3 \<longrightarrow>
            (\<forall>a k. a < length h1 \<longrightarrow> (a, k) \<noteq> (p, ?f) \<longrightarrow> map_of (H3 ! a) k = map_of (h1 ! a) k) \<longrightarrow>
            \<not> rewrites_link ?h (cacheStorage c) ?ks ?f \<longrightarrow> parent_of H3 (cacheStorage c) ?ks = Some p"
    by blast
  obtain r m where al: "alloc v (length h1) = (r, m)" by (cases "alloc v (length h1)")
  note res = cache_set_heap[OF assms(1) w p fo al, of ttl_arg]
  have H: "?H = h1[p := AList.update ?f r (h1 ! p)] @ m" by (rule res(2))
  have agree: "\<forall>a k. a < length h1 \<longrightarrow> (a, k) \<noteq> (p, ?f) \<longrightarrow> map_of (?H ! a) k = map_of (h1 ! a) k"
  proof (intro allI impI)
    fix a k assume a: "a < length h1" and n: "(a, k) \<noteq> (p, ?f)"
    show "map_of (?H ! a) k = map_of (h1 ! a) k"
    proof (cases "a = p")
      case True
      then have "k \<noteq> ?f" using n by simp
      then show ?thesis using True p H by (simp add: nth_append update_conv')
    next
      case False
      then show ?thesis using a H by (simp add: nth_append)
    qed
  qed
  have "length h1 \<le> length ?H" using H by simp
  with af agree assms(3) have 1: "parent_of ?H (cacheStorage c) ?ks = Some p" by blast
  have 2: "map_of (?H ! p) ?f = Some r" using H p by (simp add: nth_append update_conv')
  have "represents (h1[p := AList.update ?f r (h1 ! p)] @ m @ []) r v"
    by (rule alloc_represents(1)[OF al]) simp
  then have 3: "represents ?H r v" using H by simp
  from 1 2 3 alloc_Undefined[OF al] show ?thesis by blast
qed





lemma remove_walk_walkable:
  assumes "walkable h t ks f"
  shows "remove_walk h t ks = Some Absent
       \<or> (\<exists>p. p < length h \<and> remove_walk h t ks = Some (Arrived (Ref p)))"
proof -
  from walkable_cases[OF assms] show ?thesis
  proof
    assume "\<exists>p. parent_of h t ks = Some p \<and> (f \<noteq> ''__proto__'' \<or> f \<in> set (map fst (h ! p)))"
    then obtain p where pp: "parent_of h t ks = Some p" by blast
    have "remove_walk h t ks = Some (Arrived (Ref p))"
      using remove_walk_existing[OF pp, of "[]"] by simp
    then show ?thesis using parent_of_Some[OF pp] by blast
  next
    assume "\<exists>xs k ys q. ks = xs @ k # ys \<and> parent_of h t xs = Some q \<and> map_of (h ! q) k = None
            \<and> plain (k # ys) \<and> f \<noteq> ''__proto__''"
    then obtain xs k ys q where ks: "ks = xs @ k # ys" and pq: "parent_of h t xs = Some q"
      and mk: "map_of (h ! q) k = None" and pk: "k \<notin> set inherited" by auto
    have "remove_walk h t ks = Some Absent"
      using remove_walk_existing[OF pq, of "k # ys"]
        remove_walk_missing[OF parent_of_Some[OF pq] mk pk, of ys] ks by simp
    then show ?thesis by simp
  qed
qed

lemma remove_walk_absent:
  "missing_segment h t ks \<Longrightarrow> remove_walk h t ks = Some Absent"
proof (induction ks arbitrary: t)
  case Nil
  then show ?case by (cases t) simp_all
next
  case (Cons k ks)
  from Cons.prems obtain a where t: "t = Ref a" and a: "a < length h" by (cases t) auto
  show ?case
  proof (cases "map_of (h ! a) k")
    case None
    with Cons.prems t a have "k \<notin> set inherited" by simp
    then show ?thesis unfolding t by (rule remove_walk_missing[OF a None])
  next
    case (Some c)
    with Cons.prems t a have "missing_segment h c ks" by simp
    then show ?thesis unfolding t remove_walk_own[OF a Some] by (rule Cons.IH)
  qed
qed

lemma cache_remove_absent:
  assumes "missing_segment (heap c) (cacheStorage c) (butlast (segments c key))"
  shows "cache_remove c key = (Some (Resolved ()), c)"
  using remove_walk_absent[OF assms] by (simp add: cache_remove_def)

lemma cache_remove_parent:
  assumes "parent_of (heap c) (cacheStorage c) (butlast (segments c key)) = Some p"
  shows "cache_remove c key
           = (Some Pending,
              c\<lparr>heap := (heap c)[p := AList.delete (terminal (segments c key)) (heap c ! p)]\<rparr>)"
proof -
  have "remove_walk (heap c) (cacheStorage c) (butlast (segments c key)) = Some (Arrived (Ref p))"
    using remove_walk_existing[OF assms, of "[]"] by simp
  then show ?thesis using parent_of_Some[OF assms] by (simp add: cache_remove_def)
qed

text \<open>A walk that does not arrive at a Branch of the heap ends at a value that \<^verbatim>\<open>delete\<close> leaves the heap alone for.\<close>

lemma remove_walk_elsewhere:
  assumes "remove_walk h t ks = Some (Arrived tg)" "parent_of h t ks = None"
    and "js_delete h tg f = Some (Inr h')"
  shows "h' = h"
  using assms
proof (induction ks arbitrary: t)
  case Nil
  then show ?case by (cases t) (auto split: if_splits)
next
  case (Cons k ks)
  show ?case
  proof (cases t)
    case (Ref a)
    show ?thesis
    proof (cases "a < length h")
      case False
      with Cons.prems(1) Ref show ?thesis by simp
    next
      case True
      show ?thesis
      proof (cases "map_of (h ! a) k")
        case (Some c)
        from Cons.prems(1) have 1: "remove_walk h c ks = Some (Arrived tg)"
          unfolding Ref remove_walk_own[OF True Some] .
        from Cons.prems(2) Ref True Some have 2: "parent_of h c ks = None" by simp
        from Cons.IH[OF 1 2 Cons.prems(3)] show ?thesis .
      next
        case None
        then have g: "js_get h (Ref a) k = proto_member k" using True by simp
        from Cons.prems(1) Ref True None have i: "k \<in> set inherited"
          by (cases "k \<in> set inherited") (simp_all add: js_in_Ref del: js_in.simps)
        then have b: "proto_member k = ObjectPrototype \<or> proto_member k = NativeFunction k"
          by (simp add: proto_member_def)
        from Cons.prems(1) Ref True None i g
        have w: "remove_walk h (proto_member k) ks = Some (Arrived tg)"
          by (simp add: js_in_Ref del: js_in.simps js_get.simps)
        from b w have "tg = ObjectPrototype \<or> tg = NativeFunction k"
          by (cases ks) auto
        with Cons.prems(3) show ?thesis by auto
      qed
    qed
  qed (use Cons.prems(1) in simp_all)
qed

lemma cache_remove_unreached:
  assumes "parent_of (heap c) (cacheStorage c) (butlast (segments c key)) = None"
  shows "snd (cache_remove c key) = c"
proof (cases "remove_walk (heap c) (cacheStorage c) (butlast (segments c key))")
  case None
  then show ?thesis by (simp add: cache_remove_def)
next
  case (Some r)
  show ?thesis
  proof (cases r)
    case (Arrived tg)
    show ?thesis
    proof (cases "js_delete (heap c) tg (terminal (segments c key))")
      case None
      then show ?thesis using Some Arrived by (simp add: cache_remove_def)
    next
      case (Some d)
      show ?thesis
      proof (cases d)
        case (Inl e)
        then show ?thesis using \<open>remove_walk (heap c) (cacheStorage c) (butlast (segments c key)) = Some r\<close>
            Arrived Some by (simp add: cache_remove_def)
      next
        case (Inr h')
        have "h' = heap c"
          using remove_walk_elsewhere[OF _ assms] \<open>remove_walk (heap c) (cacheStorage c) (butlast (segments c key)) = Some r\<close>
            Arrived Some Inr by simp
        then show ?thesis using \<open>remove_walk (heap c) (cacheStorage c) (butlast (segments c key)) = Some r\<close>
            Arrived Some Inr by (simp add: cache_remove_def)
      qed
    qed
  qed (simp_all add: cache_remove_def Some)
qed

lemma parent_of_after_delete:
  assumes "p < length h" "parent_of (h[p := AList.delete f (h ! p)]) t ks = Some q"
  shows "parent_of h t ks = Some q"
  using assms(2)
proof (induction ks arbitrary: t)
  case Nil
  then show ?case by (cases t) (auto split: if_splits)
next
  case (Cons k ks)
  let ?h' = "h[p := AList.delete f (h ! p)]"
  from Cons.prems obtain a where t: "t = Ref a" and a: "a < length h"
    using parent_of_Ref by fastforce
  from Cons.prems t a obtain c where c: "map_of (?h' ! a) k = Some c" and q: "parent_of ?h' c ks = Some q"
    by (auto split: option.splits)
  have "map_of (h ! a) k = Some c"
  proof (cases "a = p")
    case True
    with c assms(1) show ?thesis by (simp add: delete_conv' split: if_splits)
  next
    case False
    with c show ?thesis by simp
  qed
  then show ?case using Cons.IH[OF q] t a by simp
qed

lemma cache_remove_twice:
  "snd (cache_remove (snd (cache_remove c key)) key) = snd (cache_remove c key)"
proof (cases "parent_of (heap c) (cacheStorage c) (butlast (segments c key))")
  case None
  then show ?thesis by (simp add: cache_remove_unreached)
next
  case (Some p)
  let ?f = "terminal (segments c key)"
  let ?c' = "c\<lparr>heap := (heap c)[p := AList.delete ?f (heap c ! p)]\<rparr>"
  have pl: "p < length (heap c)" using Some by (rule parent_of_Some)
  have 1: "snd (cache_remove c key) = ?c'" using cache_remove_parent[OF Some] by simp
  show ?thesis
  proof (cases "parent_of (heap ?c') (cacheStorage ?c') (butlast (segments ?c' key))")
    case None
    then have "snd (cache_remove ?c' key) = ?c'" by (rule cache_remove_unreached)
    then show ?thesis using 1 by simp
  next
    case (Some q)
    then have "parent_of (heap c) (cacheStorage c) (butlast (segments c key)) = Some q"
      using parent_of_after_delete[OF pl, of ?f "cacheStorage c" "butlast (segments c key)" q] by simp
    then have qp: "q = p" using \<open>parent_of (heap c) (cacheStorage c) (butlast (segments c key)) = Some p\<close> by simp
    have "snd (cache_remove ?c' key) = ?c'"
      using cache_remove_parent[OF Some] qp pl by (simp add: delete_idem)
    then show ?thesis using 1 by simp
  qed
qed


lemma get_loop_Undefined: "\<exists>e. get_loop h Undefined ks = Rejected e"
  by (cases ks) simp_all

lemma proto_member_plain: "k \<notin> set inherited \<Longrightarrow> proto_member k = Undefined"
  using proto_inherited by (auto simp: proto_member_def)

lemma get_loop_function: "ks \<noteq> [] \<Longrightarrow> get_loop h (NativeFunction k) ks = Rejected NoReason"
  by (cases ks) simp_all

lemma absent_ObjectPrototype: "ks \<noteq> [] \<Longrightarrow> absent h ObjectPrototype ks"
  by (cases ks) (simp_all add: absent_def)

lemma get_loop_absent:
  assumes "absent h t path" "\<not> answers_inherited h t path"
  shows "\<exists>e. get_loop h t path = Rejected e"
  using assms
proof (induction path arbitrary: t)
  case Nil
  then show ?case by (simp add: absent_def)
next
  case (Cons k ks)
  show ?case
  proof (cases "js_falsy t \<or> js_typeof t \<noteq> ''object''")
    case True
    then show ?thesis by simp
  next
    case False
    then have step: "get_loop h t (k # ks) = get_loop h (js_get h t k) ks" by simp
    show ?thesis
    proof (cases "t = ObjectPrototype")
      case True
      show ?thesis
      proof (cases "k \<in> set inherited")
        case False
        then have "js_get h t k = Undefined"
          using True proto_inherited by (auto simp: proto_member_plain)
        then show ?thesis using step get_loop_Undefined by simp
      next
        case i: True
        with Cons.prems(2) True have ne: "ks \<noteq> []" by simp
        then obtain k' ks' where ks: "ks = k' # ks'" by (cases ks) auto
        have "js_get h t k = Null \<or> js_get h t k = NativeFunction k"
          using True i by (simp add: proto_member_def)
        then show ?thesis using step ks by auto
      qed
    next
      case np: False
      show ?thesis
      proof (cases "own_props h t")
        case None
        then have "js_get h t k = Undefined" using np by (cases t) simp_all
        then show ?thesis using step get_loop_Undefined by simp
      next
        case (Some ps)
        show ?thesis
        proof (cases "map_of ps k")
          case None
          have g: "js_get h t k = proto_member k"
            using Some None np by (cases t) simp_all
          show ?thesis
          proof (cases "k \<in> set inherited")
            case False
            then show ?thesis using step g get_loop_Undefined by (simp add: proto_member_plain)
          next
            case i: True
            from Cons.prems(2) Some None np i
            have c: "ks \<noteq> [] \<and> \<not> (k = ''__proto__'' \<and> answers_inherited h ObjectPrototype ks)"
              by (cases t) simp_all
            show ?thesis
            proof (cases "k = ''__proto__''")
              case True
              with c have 1: "\<not> answers_inherited h ObjectPrototype ks" by simp
              have 2: "absent h ObjectPrototype ks" using c by (simp add: absent_ObjectPrototype)
              from Cons.IH[OF 2 1] show ?thesis using step g True by (simp add: proto_member_def)
            next
              case False
              then have "proto_member k = NativeFunction k" using i by (simp add: proto_member_def)
              then show ?thesis using step g c by (simp add: get_loop_function)
            qed
          qed
        next
          case (Some c)
          have g: "js_get h t k = c"
            using \<open>own_props h t = Some ps\<close> Some np by (cases t) simp_all
          have 1: "absent h c ks"
            using Cons.prems(1) \<open>own_props h t = Some ps\<close> Some by (simp add: absent_def)
          have 2: "\<not> answers_inherited h c ks"
            using Cons.prems(2) \<open>own_props h t = Some ps\<close> Some np by (cases t) simp_all
          from Cons.IH[OF 1 2] show ?thesis using step g by simp
        qed
      qed
    qed
  qed
qed

lemma index_props:
  "map_of (map (\<lambda>i. (string_of_nat i, Str [s ! i])) [0..<length s]) k = Some x \<Longrightarrow>
     k \<in> set (str_indices s) \<and> (\<exists>c. x = Str c)"
  by (auto dest!: map_of_SomeD simp: str_indices_def)

lemma copy_absent:
  assumes "path \<noteq> []" "absent h t0 path" "\<not> string_index t0 path"
  shows "absent h (object_assign h t0) path"
proof -
  from assms(1) obtain k ks where path: "path = k # ks" by (cases path) auto
  show ?thesis
  proof (cases t0)
    case (Str s)
    let ?ps = "map (\<lambda>i. (string_of_nat i, Str [s ! i])) [0..<length s]"
    show ?thesis
    proof (cases "map_of ?ps k")
      case None
      then show ?thesis using Str path by (simp add: absent_def)
    next
      case (Some x)
      from index_props[OF Some] obtain c where k: "k \<in> set (str_indices s)" and x: "x = Str c"
        by blast
      from assms(3) Str path k have "ks \<noteq> []" by auto
      then obtain k' ks' where "ks = k' # ks'" by (cases ks) auto
      then show ?thesis using Str path Some x by (simp add: absent_def)
    qed
  next
    case (Ref a)
    then show ?thesis using assms(2) path by (cases "a < length h") (simp_all add: absent_def)
  next
    case (Obj kvs)
    then show ?thesis using assms(2) path by (simp add: absent_def)
  qed (simp_all add: absent_def path)
qed

lemma cache_set_root:
  "cache_set c [] v ttl_arg =
     (Some (Resolved ()),
      (if \<not> truthy (if truthy ttl_arg then ttl_arg else ttl (config c))
       then setTimeout [] (if truthy ttl_arg then ttl_arg else ttl (config c)) else id)
        (c\<lparr>cacheStorage := fst (intern v (heap c)), heap := snd (intern v (heap c))\<rparr>))"
  by (simp add: cache_set_def Let_def split: prod.split)

lemma intern_represents: "represents (snd (intern v h)) (fst (intern v h)) v"
proof -
  obtain r m where al: "alloc v (length h) = (r, m)" by (cases "alloc v (length h)")
  have "represents (h @ m @ []) r v" by (rule alloc_represents(1)[OF al refl])
  then show ?thesis using al by (simp add: intern_def)
qed









section \<open>Properties of the cache\<close>

lemma leaf_cache_eq:
  "leaf_cache = \<lparr> cacheStorage = Ref 0, heap = [[(''a'', Str ''hello'')]],
       config = \<lparr> ttl = Millis 108000, separator = ''/'' \<rparr>, now = 0, timers = [] \<rparr>"
  by (simp add: leaf_cache_def cache_set_def Cache_def js_split_def terminal_def intern_def)

lemma nested_cache_eq:
  "nested_cache = \<lparr> cacheStorage = Ref 0,
       heap = [[(''a'', Str ''hello''), (''b'', Ref 1)], [(''c'', Str ''v'')]],
       config = \<lparr> ttl = Millis 108000, separator = ''/'' \<rparr>, now = 0, timers = [] \<rparr>"
  by (simp add: nested_cache_def leaf_cache_eq cache_set_def js_split_def terminal_def intern_def
      inherited_def)

lemma shared_cache_eq:
  "shared_cache = \<lparr> cacheStorage = Ref 0, heap = [[(''a'', Ref 1), (''b'', Ref 1)], []],
       config = \<lparr> ttl = Millis 108000, separator = ''/'' \<rparr>, now = 0, timers = [] \<rparr>"
  by (simp add: shared_cache_def cache_set_def Cache_def js_split_def terminal_def intern_def)

lemma looped_cache_eq:
  "looped_cache = \<lparr> cacheStorage = Ref 0, heap = [[(''x'', Ref 1)], [(''y'', Ref 1)]],
       config = \<lparr> ttl = Millis 108000, separator = ''/'' \<rparr>, now = 0, timers = [] \<rparr>"
  by (simp add: looped_cache_def cache_set_def Cache_def js_split_def terminal_def intern_def)

lemma emptied_cache_eq:
  "emptied_cache = \<lparr> cacheStorage = Ref 1, heap = [[(''toString'', Str ''old'')], []],
       config = \<lparr> ttl = Millis 108000, separator = ''/'' \<rparr>, now = 0, timers = [] \<rparr>"
  by (simp add: emptied_cache_def cache_set_def Cache_def js_split_def terminal_def intern_def)

lemma string_root_cache_eq:
  "string_root_cache = \<lparr> cacheStorage = Str ''abc'', heap = [[(''0'', Str ''old'')]],
       config = \<lparr> ttl = Millis 108000, separator = ''/'' \<rparr>, now = 0, timers = [] \<rparr>"
  by (simp add: string_root_cache_def cache_set_def Cache_def js_split_def terminal_def intern_def)

subsection \<open>Expiry\<close>

text \<open>
  C1. The claim: for a truthy TTL \<open>T\<close>, \<^verbatim>\<open>set(P, V, T)\<close> schedules one expiry timer and the
  key is gone once \<open>T\<close> has passed. The source schedules the timer under \<^verbatim>\<open>if (!ttl)\<close>:
  with the default configuration, \<^verbatim>\<open>set('a', 'v', 1000)\<close> leaves the timer queue empty and
  the key is still there after 1001 milliseconds.
\<close>

theorem truthy_ttl_schedules_nothing:
  "timers (snd (cache_set (Cache None None) ''a'' (Str ''v'') (Millis 1000))) = [] \<and>
   cache_get (elapse 1001 (snd (cache_set (Cache None None) ''a'' (Str ''v'') (Millis 1000)))) ''a''
     = Resolved (Str ''v'')"
  by (simp add: cache_set_def cache_get_def Cache_def js_split_def terminal_def elapse_def
      intern_def)

text \<open>
  C2. The claim: an explicit TTL of \<^verbatim>\<open>false\<close> pins the entry, for every configuration.
  The same test \<^verbatim>\<open>if (!ttl)\<close> schedules the removal exactly when the effective TTL is
  falsy: in a cache configured with \<^verbatim>\<open>ttl: false\<close>, which is what the tree database
  passes, \<^verbatim>\<open>set('a', 'v', false)\<close> schedules a timer, and one millisecond later the key is
  gone.
\<close>

theorem explicit_false_ttl_expires:
  "timers (snd (cache_set (Cache (Some (Flag False)) None) ''a'' (Str ''v'') (Flag False))) = [(1, ''a'')] \<and>
   cache_get (elapse 1 (snd (cache_set (Cache (Some (Flag False)) None) ''a'' (Str ''v'') (Flag False)))) ''a''
     = Rejected ReferenceError"
  by (simp add: cache_set_def cache_get_def cache_remove_def Cache_def js_split_def terminal_def
      elapse_def setTimeout_def intern_def proto_member_def inherited_def)

subsection \<open>Failures of set and remove\<close>

text \<open>
  C3, as stated, fails: when the segment \<^verbatim>\<open>a\<close> holds a Leaf, \<^verbatim>\<open>set('a/b', v)\<close>,
  \<^verbatim>\<open>set('a/b/c', v)\<close> and \<^verbatim>\<open>remove('a/b/c')\<close> throw a TypeError inside the executor and
  their promises are rejected.
\<close>

theorem set_below_leaf_rejects:
  "fst (cache_set leaf_cache ''a/b'' (Str ''v'') Omitted) = Some (Rejected TypeError) \<and>
   fst (cache_set leaf_cache ''a/b/c'' (Str ''v'') Omitted) = Some (Rejected TypeError) \<and>
   fst (cache_remove leaf_cache ''a/b/c'') = Some (Rejected TypeError)"
  by (simp add: leaf_cache_eq cache_set_def cache_remove_def js_split_def terminal_def intern_def)

text \<open>
  C3, amended: for every key and every cache state in which the walk over the
  intermediate segments of the key stays among the objects of the cache (the root and
  every value stored along the segments is a Branch, and no segment is looked up in
  \<^verbatim>\<open>Object.prototype\<close>: see \<open>walkable\<close>), the promise of \<^verbatim>\<open>set\<close> is resolved and the promise
  of \<^verbatim>\<open>remove\<close> is resolved or left pending, never rejected.
\<close>

theorem set_remove_never_reject:
  assumes "walkable (heap c) (cacheStorage c) (butlast (segments c key)) (terminal (segments c key))"
  shows "fst (cache_set c key v ttl_arg) = Some (Resolved ()) \<and>
         (fst (cache_remove c key) = Some (Resolved ()) \<or> fst (cache_remove c key) = Some Pending)"
proof
  show "fst (cache_set c key v ttl_arg) = Some (Resolved ())"
  proof (cases "key = []")
    case True
    then show ?thesis by (simp add: cache_set_root)
  next
    case False
    then show ?thesis using assms by (rule cache_set_resolves)
  qed
  from remove_walk_walkable[OF assms]
  show "fst (cache_remove c key) = Some (Resolved ()) \<or> fst (cache_remove c key) = Some Pending"
    by (auto simp: cache_remove_def)
qed

text \<open>The amended C3 at the key \<^verbatim>\<open>b/c\<close>, next to the Leaf \<^verbatim>\<open>a\<close>.\<close>

theorem set_remove_never_reject_witness:
  "walkable (heap leaf_cache) (cacheStorage leaf_cache) (butlast (segments leaf_cache ''b/c''))
     (terminal (segments leaf_cache ''b/c'')) \<and>
   fst (cache_set leaf_cache ''b/c'' (Str ''v'') Omitted) = Some (Resolved ()) \<and>
   fst (cache_remove leaf_cache ''b/c'') = Some (Resolved ())"
proof -
  have h: "walkable (heap leaf_cache) (cacheStorage leaf_cache) (butlast (segments leaf_cache ''b/c''))
     (terminal (segments leaf_cache ''b/c''))"
    by (simp add: leaf_cache_eq js_split_def terminal_def inherited_def)
  have r: "fst (cache_remove leaf_cache ''b/c'') = Some (Resolved ())"
    by (simp add: leaf_cache_eq cache_remove_def js_split_def terminal_def inherited_def)
  from set_remove_never_reject[OF h, of "Str ''v''" Omitted] h r show ?thesis by simp
qed

subsection \<open>Reading back what was set\<close>




subsection \<open>What set writes and what it leaves alone\<close>

lemma take_path:
  "n < length path \<Longrightarrow> take n (butlast path) = take n path"
  by (simp add: take_butlast)

lemma parent_of_prefix:
  "parent_of h t (xs @ ys) = Some p \<Longrightarrow> \<exists>q. parent_of h t xs = Some q"
proof (induction xs arbitrary: t)
  case Nil
  then obtain a where "t = Ref a" "a < length h" using parent_of_Ref by fastforce
  then show ?case by simp
next
  case (Cons k xs)
  from Cons.prems obtain a where t: "t = Ref a" and a: "a < length h"
    using parent_of_Ref by fastforce
  from Cons.prems t a obtain c where c: "map_of (h ! a) k = Some c"
    and p: "parent_of h c (xs @ ys) = Some p" by (auto split: option.splits)
  from Cons.IH[OF p] show ?case using t a c by simp
qed

text \<open>
  C7, as stated, fails in three ways. When the segment \<^verbatim>\<open>a\<close> holds a Leaf,
  \<^verbatim>\<open>set('a/b', 'v')\<close> throws before anything is created or written. When the keys \<^verbatim>\<open>a\<close>
  and \<^verbatim>\<open>b\<close> hold the same object, \<^verbatim>\<open>set('a/k', 'v')\<close> writes into that object, so that
  what is stored under the sibling \<^verbatim>\<open>b\<close> changes: \<^verbatim>\<open>get('b/k')\<close> was a miss and now answers
  \<^verbatim>\<open>'v'\<close>. And in the cache that holds an object inside itself, \<^verbatim>\<open>set('x/y/y', 'v')\<close>
  overwrites the Branch at \<^verbatim>\<open>x/y\<close>, so that the path \<^verbatim>\<open>x/y/y\<close> leads nowhere afterwards.
\<close>

theorem set_below_leaf_writes_nothing:
  "cache_set leaf_cache ''a/b'' (Str ''v'') Omitted = (Some (Rejected TypeError), leaf_cache) \<and>
   traverse (heap leaf_cache) (cacheStorage leaf_cache) (segments leaf_cache ''a/b'') = None \<and>
   cache_get shared_cache ''b/k'' = Rejected ReferenceError \<and>
   cache_get (snd (cache_set shared_cache ''a/k'' (Str ''v'') Omitted)) ''b/k'' = Resolved (Str ''v'') \<and>
   fst (cache_set looped_cache ''x/y/y'' (Str ''v'') Omitted) = Some (Resolved ()) \<and>
   traverse (heap (snd (cache_set looped_cache ''x/y/y'' (Str ''v'') Omitted)))
     (cacheStorage looped_cache) (segments looped_cache ''x/y/y'') = None"
  by (simp add: leaf_cache_eq shared_cache_eq looped_cache_eq cache_set_def cache_get_def
      js_split_def terminal_def intern_def proto_member_def inherited_def)

text \<open>
  C7, amended: for every non-empty key and value and every cache state in which the walk
  of \<^verbatim>\<open>set\<close> stays among the objects of the cache (\<open>walkable\<close>), \<^verbatim>\<open>set(P, V)\<close> leaves the
  root in place and changes one property of the objects that existed before: the one at
  \<open>position\<close>, which is the first missing segment in the deepest Branch that exists on the
  path, or the terminal segment in the parent. Every other key of every object keeps
  exactly its previous value, and no other key is added. An object that is stored in
  several places is one object: what is written into it shows wherever it is stored.
  When moreover the property that is assigned is not one that the walk has followed,
  then afterwards every proper prefix of the path leads through Branches to a Branch
  and the whole path leads to \<open>V\<close>.
\<close>

theorem set_creates_and_preserves:
  assumes "key \<noteq> []"
    and "walkable (heap c) (cacheStorage c) (butlast (segments c key)) (terminal (segments c key))"
  shows "cacheStorage (snd (cache_set c key v ttl_arg)) = cacheStorage c \<and>
         (\<forall>a k. a < length (heap c) \<longrightarrow>
                (Ref a, k) \<noteq> position (heap c) (cacheStorage c) (segments c key) \<longrightarrow>
                map_of (heap (snd (cache_set c key v ttl_arg)) ! a) k = map_of (heap c ! a) k) \<and>
         (\<not> rewrites_link (heap c) (cacheStorage c) (butlast (segments c key))
               (terminal (segments c key)) \<longrightarrow>
            (\<forall>n < length (segments c key).
                \<exists>a. parent_of (heap (snd (cache_set c key v ttl_arg))) (cacheStorage c)
                       (take n (segments c key)) = Some a) \<and>
            (\<exists>r. traverse (heap (snd (cache_set c key v ttl_arg))) (cacheStorage c)
                    (segments c key) = Some r
                \<and> represents (heap (snd (cache_set c key v ttl_arg))) r v))"
proof (intro conjI allI impI)
  show "cacheStorage (snd (cache_set c key v ttl_arg)) = cacheStorage c"
    using assms by (rule cache_set_frame(3))
next
  fix a k
  assume "a < length (heap c)"
    and "(Ref a, k) \<noteq> position (heap c) (cacheStorage c) (segments c key)"
  then show "map_of (heap (snd (cache_set c key v ttl_arg)) ! a) k = map_of (heap c ! a) k"
    by (rule cache_set_frame(2)[OF assms])
next
  let ?ks = "butlast (segments c key)" and ?f = "terminal (segments c key)"
  let ?H = "heap (snd (cache_set c key v ttl_arg))"
  assume n: "\<not> rewrites_link (heap c) (cacheStorage c) ?ks ?f"
  have path: "?ks @ [?f] = segments c key"
    using js_split_nonempty[OF assms(1)] by (simp add: path_snoc)
  from cache_set_written[OF assms n, of v ttl_arg] obtain p r where
    1: "parent_of ?H (cacheStorage c) ?ks = Some p"
    and 2: "map_of (?H ! p) ?f = Some r" and 3: "represents ?H r v" by blast
  have pl: "p < length ?H" using 1 by (rule parent_of_Some)
  {
    fix n assume nl: "n < length (segments c key)"
    then have "n \<le> length ?ks" by simp
    then have "?ks = take n ?ks @ drop n ?ks" by simp
    with 1 have "parent_of ?H (cacheStorage c) (take n ?ks @ drop n ?ks) = Some p" by simp
    then have "\<exists>a. parent_of ?H (cacheStorage c) (take n ?ks) = Some a"
      by (rule parent_of_prefix)
    then show "\<exists>a. parent_of ?H (cacheStorage c) (take n (segments c key)) = Some a"
      using take_path[OF nl] by simp
  }
  have "traverse ?H (cacheStorage c) (?ks @ [?f]) = Some r"
    using traverse_existing[OF 1, of "[?f]"] 2 pl by simp
  then show "\<exists>r. traverse ?H (cacheStorage c) (segments c key) = Some r \<and> represents ?H r v"
    using 3 path by auto
qed

text \<open>The amended C7 at the key \<^verbatim>\<open>b/c\<close>, next to the Leaf \<^verbatim>\<open>a\<close>: \<^verbatim>\<open>b\<close> is created and \<^verbatim>\<open>a\<close> is kept.\<close>

theorem set_creates_and_preserves_witness:
  "''b/c'' \<noteq> [] \<and>
   walkable (heap leaf_cache) (cacheStorage leaf_cache) (butlast (segments leaf_cache ''b/c''))
     (terminal (segments leaf_cache ''b/c'')) \<and>
   \<not> rewrites_link (heap leaf_cache) (cacheStorage leaf_cache) (butlast (segments leaf_cache ''b/c''))
     (terminal (segments leaf_cache ''b/c'')) \<and>
   position (heap leaf_cache) (cacheStorage leaf_cache) (segments leaf_cache ''b/c'') = (Ref 0, ''b'') \<and>
   map_of (heap nested_cache ! 0) ''a'' = Some (Str ''hello'') \<and>
   parent_of (heap nested_cache) (cacheStorage nested_cache) [''b''] = Some 1 \<and>
   traverse (heap nested_cache) (cacheStorage nested_cache) (segments leaf_cache ''b/c'')
     = Some (Str ''v'')"
proof -
  have k: "''b/c'' \<noteq> []" by simp
  have h: "walkable (heap leaf_cache) (cacheStorage leaf_cache) (butlast (segments leaf_cache ''b/c''))
     (terminal (segments leaf_cache ''b/c''))"
    by (simp add: leaf_cache_eq js_split_def terminal_def inherited_def)
  have n: "\<not> rewrites_link (heap leaf_cache) (cacheStorage leaf_cache)
     (butlast (segments leaf_cache ''b/c'')) (terminal (segments leaf_cache ''b/c''))"
    by (simp add: leaf_cache_eq js_split_def terminal_def rewrites_link_def)
  have p: "position (heap leaf_cache) (cacheStorage leaf_cache) (segments leaf_cache ''b/c'')
             = (Ref 0, ''b'')"
    by (simp add: leaf_cache_eq js_split_def)
  note inst = set_creates_and_preserves[OF k h, of "Str ''v''" "Millis 5", folded nested_cache_def]
  have "map_of (heap nested_cache ! 0) ''a'' = map_of (heap leaf_cache ! 0) ''a''"
    using inst[THEN conjunct2, THEN conjunct1, rule_format, of 0 "''a''"] p
    by (simp add: leaf_cache_eq)
  then have a: "map_of (heap nested_cache ! 0) ''a'' = Some (Str ''hello'')"
    by (simp add: leaf_cache_eq)
  have b: "parent_of (heap nested_cache) (cacheStorage nested_cache) [''b''] = Some 1"
    by (simp add: nested_cache_eq)
  have t: "traverse (heap nested_cache) (cacheStorage nested_cache) (segments leaf_cache ''b/c'')
             = Some (Str ''v'')"
    by (simp add: nested_cache_eq leaf_cache_eq js_split_def)
  from k h n p a b t show ?thesis by simp
qed

subsection \<open>What remove deletes\<close>

text \<open>
  C8, as stated, fails: after \<^verbatim>\<open>set('a', 'hello')\<close> nothing is stored at \<^verbatim>\<open>a/b\<close>, so the
  intermediate segment \<^verbatim>\<open>b\<close> of the key \<^verbatim>\<open>a/b/c\<close> is missing; yet \<^verbatim>\<open>remove('a/b/c')\<close>
  raises a TypeError (and leaves the cache as it was).
\<close>

theorem remove_below_leaf_rejects:
  "traverse (heap leaf_cache) (cacheStorage leaf_cache) [''a'', ''b''] = None \<and>
   cache_remove leaf_cache ''a/b/c'' = (Some (Rejected TypeError), leaf_cache)"
  by (simp add: leaf_cache_eq cache_remove_def js_split_def terminal_def)

text \<open>
  C8, amended. For every key and every cache state: when the walk through Branches over
  the intermediate segments arrives at a Branch, \<^verbatim>\<open>remove\<close> deletes the entry of the
  terminal segment from that Branch and nothing else changes in any object (the promise
  stays pending); when the walk reaches a Branch that neither owns nor inherits the next
  segment, the promise is resolved and the state is unchanged; a call that stays inside
  the model and does not arrive at a Branch changes nothing; and when both calls stay
  inside the model, removing twice leaves the same state as removing once.
\<close>

theorem remove_deletes_terminal_only:
  "(missing_segment (heap c) (cacheStorage c) (butlast (segments c key)) \<longrightarrow>
      cache_remove c key = (Some (Resolved ()), c)) \<and>
   (\<forall>p. parent_of (heap c) (cacheStorage c) (butlast (segments c key)) = Some p \<longrightarrow>
      cache_remove c key
        = (Some Pending,
           c\<lparr>heap := (heap c)[p := AList.delete (terminal (segments c key)) (heap c ! p)]\<rparr>)) \<and>
   (fst (cache_remove c key) \<noteq> None \<longrightarrow>
    parent_of (heap c) (cacheStorage c) (butlast (segments c key)) = None \<longrightarrow>
      snd (cache_remove c key) = c) \<and>
   (fst (cache_remove c key) \<noteq> None \<longrightarrow>
    fst (cache_remove (snd (cache_remove c key)) key) \<noteq> None \<longrightarrow>
      snd (cache_remove (snd (cache_remove c key)) key) = snd (cache_remove c key))"
proof (intro conjI allI impI)
  assume "missing_segment (heap c) (cacheStorage c) (butlast (segments c key))"
  then show "cache_remove c key = (Some (Resolved ()), c)" by (rule cache_remove_absent)
next
  fix p assume "parent_of (heap c) (cacheStorage c) (butlast (segments c key)) = Some p"
  then show "cache_remove c key
        = (Some Pending,
           c\<lparr>heap := (heap c)[p := AList.delete (terminal (segments c key)) (heap c ! p)]\<rparr>)"
    by (rule cache_remove_parent)
next
  assume "parent_of (heap c) (cacheStorage c) (butlast (segments c key)) = None"
  then show "snd (cache_remove c key) = c" by (rule cache_remove_unreached)
next
  show "snd (cache_remove (snd (cache_remove c key)) key) = snd (cache_remove c key)"
    by (rule cache_remove_twice)
qed

text \<open>
  The amended C8 on the cache that holds \<^verbatim>\<open>a\<close> and \<^verbatim>\<open>b/c\<close>: \<^verbatim>\<open>remove('b/c')\<close> empties the
  Branch \<^verbatim>\<open>b\<close> and keeps everything else, \<^verbatim>\<open>remove('x/y')\<close> changes nothing, and so does
  \<^verbatim>\<open>remove('a/b')\<close>, whose parent is a Leaf.
\<close>

theorem remove_deletes_terminal_only_witness:
  "parent_of (heap nested_cache) (cacheStorage nested_cache) (butlast (segments nested_cache ''b/c''))
     = Some 1 \<and>
   cache_remove nested_cache ''b/c''
     = (Some Pending,
        nested_cache\<lparr>heap := [[(''a'', Str ''hello''), (''b'', Ref 1)], []]\<rparr>) \<and>
   missing_segment (heap nested_cache) (cacheStorage nested_cache)
     (butlast (segments nested_cache ''x/y'')) \<and>
   cache_remove nested_cache ''x/y'' = (Some (Resolved ()), nested_cache) \<and>
   fst (cache_remove nested_cache ''a/b'') = Some Pending \<and>
   parent_of (heap nested_cache) (cacheStorage nested_cache) (butlast (segments nested_cache ''a/b''))
     = None \<and>
   snd (cache_remove nested_cache ''a/b'') = nested_cache \<and>
   snd (cache_remove (snd (cache_remove nested_cache ''b/c'')) ''b/c'')
     = snd (cache_remove nested_cache ''b/c'')"
proof -
  note inst = remove_deletes_terminal_only[of nested_cache]
  have p: "parent_of (heap nested_cache) (cacheStorage nested_cache)
             (butlast (segments nested_cache ''b/c'')) = Some 1"
    by (simp add: nested_cache_eq js_split_def)
  have m: "missing_segment (heap nested_cache) (cacheStorage nested_cache)
             (butlast (segments nested_cache ''x/y''))"
    by (simp add: nested_cache_eq js_split_def inherited_def)
  have q: "parent_of (heap nested_cache) (cacheStorage nested_cache)
             (butlast (segments nested_cache ''a/b'')) = None"
    by (simp add: nested_cache_eq js_split_def)
  have f: "fst (cache_remove nested_cache ''a/b'') = Some Pending"
    by (simp add: nested_cache_eq cache_remove_def js_split_def terminal_def str_indices_def
        string_of_nat.simps)
  have f1: "fst (cache_remove nested_cache ''b/c'') \<noteq> None"
    by (simp add: nested_cache_eq cache_remove_def js_split_def terminal_def)
  have f2: "fst (cache_remove (snd (cache_remove nested_cache ''b/c'')) ''b/c'') \<noteq> None"
    by (simp add: nested_cache_eq cache_remove_def js_split_def terminal_def)
  have 1: "cache_remove nested_cache ''b/c''
     = (Some Pending,
        nested_cache\<lparr>heap := [[(''a'', Str ''hello''), (''b'', Ref 1)], []]\<rparr>)"
    using inst[of "''b/c''", THEN conjunct2, THEN conjunct1, rule_format, OF p]
    by (simp add: nested_cache_eq js_split_def terminal_def)
  have 2: "cache_remove nested_cache ''x/y'' = (Some (Resolved ()), nested_cache)"
    using inst[of "''x/y''", THEN conjunct1, rule_format, OF m] .
  have 3: "snd (cache_remove nested_cache ''a/b'') = nested_cache"
    using inst[of "''a/b''", THEN conjunct2, THEN conjunct2, THEN conjunct1, rule_format] f q
    by simp
  have 4: "snd (cache_remove (snd (cache_remove nested_cache ''b/c'')) ''b/c'')
     = snd (cache_remove nested_cache ''b/c'')"
    using inst[of "''b/c''", THEN conjunct2, THEN conjunct2, THEN conjunct2, rule_format, OF f1 f2] .
  from p 1 m 2 f q 3 4 show ?thesis by simp
qed

subsection \<open>Replacing the root\<close>

text \<open>
  C5, as stated, fails in two ways. After \<^verbatim>\<open>set('toString', 'old')\<close> and \<^verbatim>\<open>set('', {})\<close>
  the key \<^verbatim>\<open>toString\<close> is absent from the new root, yet \<^verbatim>\<open>get('toString')\<close> answers the
  function that every object inherits: \<^verbatim>\<open>get\<close> reads properties without asking whether
  the object owns them. And after \<^verbatim>\<open>set('0', 'old')\<close> and \<^verbatim>\<open>set('', 'abc')\<close> the root is a
  Leaf, which has no children, yet \<^verbatim>\<open>get('0')\<close> answers \<^verbatim>\<open>'a'\<close>: \<^verbatim>\<open>get\<close> walks a copy made
  by \<^verbatim>\<open>Object.assign\<close>, which has one property per character, and so passes by the test
  that rejects a Leaf everywhere below the root.
\<close>

theorem replaced_root_still_answers:
  "absent (heap emptied_cache) (cacheStorage emptied_cache) (segments emptied_cache ''toString'') \<and>
   cache_get emptied_cache ''toString'' = Resolved (NativeFunction ''toString'') \<and>
   absent (heap string_root_cache) (cacheStorage string_root_cache) (segments string_root_cache ''0'') \<and>
   cache_get string_root_cache ''0'' = Resolved (Str ''a'')"
  by (simp add: emptied_cache_eq string_root_cache_eq absent_def cache_get_def js_split_def
      proto_member_def inherited_def string_of_nat.simps)

text \<open>
  C5, amended: for every value and every prior state, \<^verbatim>\<open>set("", V)\<close> is resolved and
  replaces the root by \<open>V\<close>; afterwards \<^verbatim>\<open>get\<close> fails for every non-empty key that is
  absent from \<open>V\<close>, unless the walk over the key ends at a member that the object there
  does not own but inherits from \<^verbatim>\<open>Object.prototype\<close> (\<open>answers_inherited\<close>, on the copy
  that \<^verbatim>\<open>get\<close> walks), and unless \<open>V\<close> is a string and the key is one of its indices. An
  object \<open>V\<close> that owns a property named \<^verbatim>\<open>__proto__\<close> is left out: \<^verbatim>\<open>Object.assign\<close> would
  make its value the prototype of the copy.
\<close>

theorem set_root_replaces:
  "fst (cache_set c [] v ttl_arg) = Some (Resolved ()) \<and>
   represents (heap (snd (cache_set c [] v ttl_arg))) (cacheStorage (snd (cache_set c [] v ttl_arg))) v \<and>
   (\<forall>key. key \<noteq> [] \<longrightarrow>
      absent (heap (snd (cache_set c [] v ttl_arg))) (cacheStorage (snd (cache_set c [] v ttl_arg)))
        (segments c key) \<longrightarrow>
      \<not> answers_inherited (heap (snd (cache_set c [] v ttl_arg)))
          (object_assign (heap (snd (cache_set c [] v ttl_arg)))
             (cacheStorage (snd (cache_set c [] v ttl_arg))))
          (segments c key) \<longrightarrow>
      \<not> string_index (cacheStorage (snd (cache_set c [] v ttl_arg))) (segments c key) \<longrightarrow>
      \<not> owns (heap (snd (cache_set c [] v ttl_arg))) (cacheStorage (snd (cache_set c [] v ttl_arg)))
          ''__proto__'' \<longrightarrow>
      (\<exists>e. cache_get (snd (cache_set c [] v ttl_arg)) key = Rejected e))"
proof (intro conjI allI impI)
  let ?c' = "snd (cache_set c [] v ttl_arg)"
  show "fst (cache_set c [] v ttl_arg) = Some (Resolved ())" by (simp add: cache_set_root)
  have s: "cacheStorage ?c' = fst (intern v (heap c))" "heap ?c' = snd (intern v (heap c))"
    "config ?c' = config c"
    by (simp_all add: cache_set_root)
  show "represents (heap ?c') (cacheStorage ?c') v" unfolding s by (rule intern_represents)
  fix key :: string
  assume k: "key \<noteq> []"
    and a: "absent (heap ?c') (cacheStorage ?c') (segments c key)"
    and m: "\<not> answers_inherited (heap ?c') (object_assign (heap ?c') (cacheStorage ?c')) (segments c key)"
    and i: "\<not> string_index (cacheStorage ?c') (segments c key)"
  have "absent (heap ?c') (object_assign (heap ?c') (cacheStorage ?c')) (segments c key)"
    using js_split_nonempty[OF k] a i by (rule copy_absent)
  from get_loop_absent[OF this m] show "\<exists>e. cache_get ?c' key = Rejected e"
    by (simp add: cache_get_def s(3))
qed

text \<open>
  The amended C5 on the cache that holds \<^verbatim>\<open>a\<close> and \<^verbatim>\<open>b/c\<close>, replaced by the Branch
  \<^verbatim>\<open>{x: 'y'}\<close>: the key \<^verbatim>\<open>b/c\<close> is gone.
\<close>

theorem set_root_replaces_witness:
  "''b/c'' \<noteq> [] \<and>
   absent (heap (snd (cache_set nested_cache [] (Obj [(''x'', Str ''y'')]) Omitted)))
     (cacheStorage (snd (cache_set nested_cache [] (Obj [(''x'', Str ''y'')]) Omitted)))
     (segments nested_cache ''b/c'') \<and>
   \<not> answers_inherited (heap (snd (cache_set nested_cache [] (Obj [(''x'', Str ''y'')]) Omitted)))
       (object_assign (heap (snd (cache_set nested_cache [] (Obj [(''x'', Str ''y'')]) Omitted)))
          (cacheStorage (snd (cache_set nested_cache [] (Obj [(''x'', Str ''y'')]) Omitted))))
       (segments nested_cache ''b/c'') \<and>
   \<not> string_index (cacheStorage (snd (cache_set nested_cache [] (Obj [(''x'', Str ''y'')]) Omitted)))
       (segments nested_cache ''b/c'') \<and>
   \<not> owns (heap (snd (cache_set nested_cache [] (Obj [(''x'', Str ''y'')]) Omitted)))
       (cacheStorage (snd (cache_set nested_cache [] (Obj [(''x'', Str ''y'')]) Omitted))) ''__proto__'' \<and>
   cacheStorage (snd (cache_set nested_cache [] (Obj [(''x'', Str ''y'')]) Omitted)) = Ref 2 \<and>
   heap (snd (cache_set nested_cache [] (Obj [(''x'', Str ''y'')]) Omitted)) ! 2 = [(''x'', Str ''y'')] \<and>
   (\<exists>e. cache_get (snd (cache_set nested_cache [] (Obj [(''x'', Str ''y'')]) Omitted)) ''b/c''
           = Rejected e)"
proof -
  let ?c' = "snd (cache_set nested_cache [] (Obj [(''x'', Str ''y'')]) Omitted)"
  have e: "?c' = nested_cache\<lparr>cacheStorage := Ref 2,
             heap := [[(''a'', Str ''hello''), (''b'', Ref 1)], [(''c'', Str ''v'')], [(''x'', Str ''y'')]]\<rparr>"
    by (simp add: cache_set_def nested_cache_eq intern_def)
  have k: "''b/c'' \<noteq> []" by simp
  have a: "absent (heap ?c') (cacheStorage ?c') (segments nested_cache ''b/c'')"
    unfolding e by (simp add: nested_cache_eq absent_def js_split_def)
  have m: "\<not> answers_inherited (heap ?c') (object_assign (heap ?c') (cacheStorage ?c'))
             (segments nested_cache ''b/c'')"
    unfolding e by (simp add: nested_cache_eq js_split_def inherited_def)
  have i: "\<not> string_index (cacheStorage ?c') (segments nested_cache ''b/c'')"
    unfolding e by simp
  have o: "\<not> owns (heap ?c') (cacheStorage ?c') ''__proto__''"
    unfolding e by (simp add: owns_def)
  have r: "cacheStorage ?c' = Ref 2" "heap ?c' ! 2 = [(''x'', Str ''y'')]"
    unfolding e by simp_all
  from set_root_replaces[of nested_cache "Obj [(''x'', Str ''y'')]" Omitted,
      THEN conjunct2, THEN conjunct2, rule_format, OF k a m i o] k a m i o r
  show ?thesis by simp
qed

section \<open>Properties of the tree database\<close>

subsection \<open>Reading a regular tree\<close>









text \<open>The storage root of every database the constructor makes has the base name \<^verbatim>\<open>storage\<close>.\<close>

lemma basename_root_TreeDB: "basename (root (TreeDB rp cache_options d)) = ''storage''"
  by (simp add: TreeDB_def path_join_def basename_def)



subsection \<open>readPath and a failing stat\<close>

text \<open>
  C9. For every node path: when \<^verbatim>\<open>lstat\<close> of the resolved path fails with ENOENT,
  \<^verbatim>\<open>readPath\<close> resolves to \<^verbatim>\<open>undefined\<close>; when it fails with any other error,
  \<^verbatim>\<open>readPath\<close> is rejected with that error.
\<close>

theorem readPath_stat_failure:
  assumes "lstat (disk db) (path_join (root db) nodePath) = Inl code"
  shows "readPath db nodePath =
           (if code = ''ENOENT'' then Resolved NotThere else Rejected (FsError code))"
  using assms by (simp add: readPath_def on_fs_error_def)

text \<open>C9 at a path that does not exist and at an entry that \<^verbatim>\<open>lstat\<close> cannot read.\<close>

theorem readPath_stat_failure_witness:
  "lstat (disk locked_db) (path_join (root locked_db) ''missing'') = Inl ''ENOENT'' \<and>
   readPath locked_db ''missing'' = Resolved NotThere \<and>
   lstat (disk locked_db) (path_join (root locked_db) ''locked'') = Inl ''EACCES'' \<and>
   readPath locked_db ''locked'' = Rejected (FsError ''EACCES'')"
proof -
  have a: "lstat (disk locked_db) (path_join (root locked_db) ''missing'') = Inl ''ENOENT''"
    by (simp add: locked_db_def TreeDB_def lstat_def path_join_def)
  have b: "lstat (disk locked_db) (path_join (root locked_db) ''locked'') = Inl ''EACCES''"
    by (simp add: locked_db_def TreeDB_def lstat_def path_join_def)
  from readPath_stat_failure[OF a] readPath_stat_failure[OF b] a b show ?thesis by simp
qed

subsection \<open>getBranch and the bootstrap\<close>












end
